theory Spec2Isabelle
  imports Complex_Main "HOL-Library.Word" "HOL-Library.Log_Nat"
begin

section \<open>The random source and the error values\<close>

text \<open>
  The generator draws every random number from Python's process-wide \<^verbatim>\<open>random\<close>
  module. The module's state is made explicit: an infinite stream of raw draws, of which
  every call consumes the head. \<^verbatim>\<open>random.randint(a, b)\<close> returns an integer of the
  closed interval from \<^verbatim>\<open>a\<close> to \<^verbatim>\<open>b\<close> and raises \<^verbatim>\<open>ValueError\<close> on an empty one. Every
  value of the interval is the result for some stream, so that a statement about all
  streams is a statement about all outcomes of the draw.

  The exceptions are values: \<^verbatim>\<open>OverflowError\<close> is raised when an integer does not fit
  the C type the imaging library converts it to, and \<open>OSError\<close> stands for the class
  \<^verbatim>\<open>OSError\<close> with its subclasses (\<^verbatim>\<open>FileNotFoundError\<close>, \<^verbatim>\<open>PermissionError\<close> and the
  like), raised when a file cannot be opened for writing.
\<close>

datatype error = ValueError | ZeroDivisionError | OverflowError | OSError

type_synonym rng = "nat \<Rightarrow> nat"

definition advance :: "rng \<Rightarrow> rng" where
  "advance s = (\<lambda>n. s (Suc n))"

text \<open>The stream after \<open>k\<close> draws.\<close>

definition drop_draws :: "nat \<Rightarrow> rng \<Rightarrow> rng" where
  "drop_draws k s = (\<lambda>n. s (n + k))"

definition randint :: "int \<Rightarrow> int \<Rightarrow> rng \<Rightarrow> error + int \<times> rng" where
  "randint a b s =
     (if b < a then Inl ValueError
      else Inr (a + int (s 0 mod nat (b - a + 1)), advance s))"

text \<open>
  The value that \<^verbatim>\<open>random.randint(a, b)\<close> returns when it is the call that consumes
  draw \<open>k\<close> of the stream.
\<close>

definition nth_randint :: "int \<Rightarrow> int \<Rightarrow> rng \<Rightarrow> nat \<Rightarrow> int" where
  "nth_randint a b s k = a + int (s k mod nat (b - a + 1))"

text \<open>
  \<^verbatim>\<open>random.random()\<close> returns a binary64 number of the half-open unit interval, a
  multiple of \<open>2\<^sup>-\<^sup>5\<^sup>3\<close>; \<^verbatim>\<open>random.choice\<close> of a list of two picks one of them.
\<close>

definition random_unit :: "rng \<Rightarrow> rat \<times> rng" where
  "random_unit s = (of_nat (s 0 mod 2 ^ 53) / 2 ^ 53, advance s)"


text \<open>
  A \<^verbatim>\<open>for\<close> loop over a list threads the variables its body assigns through the
  iterations and stops at the first exception.
\<close>

fun for_each :: "('a \<Rightarrow> 's \<Rightarrow> error + 's) \<Rightarrow> 'a list \<Rightarrow> 's \<Rightarrow> error + 's" where
  "for_each body [] st = Inr st"
| "for_each body (x # xs) st =
     (case body x st of Inl e \<Rightarrow> Inl e | Inr st' \<Rightarrow> for_each body xs st')"

definition py_range :: "int \<Rightarrow> int list" where
  "py_range n = [0..n - 1]"

section \<open>Python's numbers\<close>

text \<open>
  Python's \<^verbatim>\<open>int\<close> is unbounded: \<^typ>\<open>int\<close>. Its \<^verbatim>\<open>float\<close> is an IEEE 754 binary64
  number, modelled by its exact value, a rational; every operation computes the exact
  result and rounds it to the nearest binary64 number, ties to the even significand.
  \<open>fl\<close> is that rounding: 53 bits of significand, exponents no smaller than the
  subnormal one. Results of magnitude \<open>2\<^sup>1\<^sup>0\<^sup>2\<^sup>4\<close> and more, where Python
  gives an infinity or raises \<^verbatim>\<open>OverflowError\<close>, are outside the model: the
  quantities of this program are pixel coordinates and colour channels.
\<close>

text \<open>\<open>ilog2 x\<close> is the exponent of \<open>x > 0\<close>: \<open>2\<^bsup>ilog2 x\<^esup> \<le> x < 2\<^bsup>ilog2 x + 1\<^esup>\<close>.\<close>

definition ilog2 :: "rat \<Rightarrow> int" where
  "ilog2 x = (case quotient_of x of (p, q) \<Rightarrow>
     let e = bitlen p - bitlen q in if 2 powi e \<le> x then e else e - 1)"

definition round_half_even :: "rat \<Rightarrow> int" where
  "round_half_even q =
     (let f = \<lfloor>q\<rfloor>; r = q - of_int f
      in if r < 1 / 2 then f else if 1 / 2 < r then f + 1
         else if even f then f else f + 1)"

definition fl :: "rat \<Rightarrow> rat" where
  "fl x =
     (if x = 0 then 0
      else let e = max (ilog2 \<bar>x\<bar>) (- 1022); ulp = 2 powi (e - 52)
           in sgn x * (of_int (round_half_even (\<bar>x\<bar> / ulp)) * ulp))"

text \<open>
  The conversion of an \<^verbatim>\<open>int\<close> operand, the four operations on floats, the true
  division \<^verbatim>\<open>a / b\<close> of two ints (the correctly rounded quotient), and \<^verbatim>\<open>int(x)\<close>,
  which truncates towards zero. Both divisions raise \<^verbatim>\<open>ZeroDivisionError\<close>.
\<close>

definition float_of_int :: "int \<Rightarrow> rat" where
  "float_of_int n = fl (of_int n)"

definition fadd :: "rat \<Rightarrow> rat \<Rightarrow> rat" where
  "fadd a b = fl (a + b)"

definition fsub :: "rat \<Rightarrow> rat \<Rightarrow> rat" where
  "fsub a b = fl (a - b)"

definition fmul :: "rat \<Rightarrow> rat \<Rightarrow> rat" where
  "fmul a b = fl (a * b)"

definition fdiv :: "rat \<Rightarrow> rat \<Rightarrow> error + rat" where
  "fdiv a b = (if b = 0 then Inl ZeroDivisionError else Inr (fl (a / b)))"

definition int_truediv :: "int \<Rightarrow> int \<Rightarrow> error + rat" where
  "int_truediv a b = (if b = 0 then Inl ZeroDivisionError else Inr (fl (of_int a / of_int b)))"

definition py_int :: "rat \<Rightarrow> int" where
  "py_int x = (if 0 \<le> x then \<lfloor>x\<rfloor> else \<lceil>x\<rceil>)"

text \<open>
  \<^verbatim>\<open>math.sqrt\<close> is the correctly rounded square root. \<open>isqrt\<close> is the integer square
  root; the significand of the result is the square root of the scaled argument
  rounded to the nearest integer (a binary64 argument never has its root half way
  between two neighbours). A negative argument raises \<^verbatim>\<open>ValueError\<close>.
\<close>

function isqrt :: "int \<Rightarrow> int" where
  "isqrt n =
     (if n < 2 then n
      else let r = 2 * isqrt (n div 4)
           in if (r + 1) * (r + 1) \<le> n then r + 1 else r)"
  by pat_completeness auto
termination
  by (relation "measure nat") auto

declare isqrt.simps [simp del]

definition fsqrt :: "rat \<Rightarrow> error + rat" where
  "fsqrt x =
     (if x < 0 then Inl ValueError
      else if x = 0 then Inr 0
      else let e = ilog2 x div 2; ulp = 2 powi (e - 52);
               m = (isqrt \<lfloor>4 * (x / (ulp * ulp))\<rfloor> + 1) div 2
           in Inr (of_int m * ulp))"

section \<open>Images\<close>

text \<open>
  A Pillow image of mode \<^verbatim>\<open>RGB\<close> or \<^verbatim>\<open>RGBA\<close>: its size and its pixel buffer, every
  channel one byte. Reading a pixel gives a tuple of three or of four integers between
  0 and 255; writing one stores each integer clipped to that range.
\<close>

datatype pixel =
  RGB "8 word" "8 word" "8 word"
| RGBA "8 word" "8 word" "8 word" "8 word"

record image =
  img_w :: nat
  img_h :: nat
  img_px :: "nat \<Rightarrow> nat \<Rightarrow> pixel"

fun red :: "pixel \<Rightarrow> int" where
  "red (RGB r g b) = uint r"
| "red (RGBA r g b a) = uint r"

fun green :: "pixel \<Rightarrow> int" where
  "green (RGB r g b) = uint g"
| "green (RGBA r g b a) = uint g"

fun blue :: "pixel \<Rightarrow> int" where
  "blue (RGB r g b) = uint b"
| "blue (RGBA r g b a) = uint b"

fun alpha :: "pixel \<Rightarrow> int option" where
  "alpha (RGB r g b) = None"
| "alpha (RGBA r g b a) = Some (uint a)"

definition store8 :: "int \<Rightarrow> 8 word" where
  "store8 v = word_of_int (max 0 (min 255 v))"

definition putpixel :: "image \<Rightarrow> nat \<Rightarrow> nat \<Rightarrow> pixel \<Rightarrow> image" where
  "putpixel img x y p = img\<lparr>img_px := (img_px img)(x := (img_px img x)(y := p))\<rparr>"

text \<open>
  A colour given as a tuple of integers becomes a pixel by clipping each integer to a
  byte (\<open>ink_rgb\<close>, \<open>ink_rgba\<close>). Before it clips them the imaging library reads the
  integers into C variables, the first into a \<^verbatim>\<open>long long\<close> of 64 bits and the
  others into an \<^verbatim>\<open>int\<close> of 32 bits, and raises \<^verbatim>\<open>OverflowError\<close> for one that does
  not fit (\<open>getink_rgb\<close>, \<open>getink_rgba\<close>). Every colour that reaches a canvas, as the
  fill of \<^verbatim>\<open>Image.new\<close>, of a drawing operation or of \<^verbatim>\<open>putpixel\<close>, goes through
  this conversion. On an image of mode \<^verbatim>\<open>RGBA\<close> a drawing with such a colour replaces
  the pixel, its alpha included.
\<close>

type_synonym color = "int \<times> int \<times> int"

fun ink_rgb :: "color \<Rightarrow> pixel" where
  "ink_rgb (r, g, b) = RGB (store8 r) (store8 g) (store8 b)"

fun ink_rgba :: "color \<Rightarrow> int \<Rightarrow> pixel" where
  "ink_rgba (r, g, b) a = RGBA (store8 r) (store8 g) (store8 b) (store8 a)"

text \<open>A colour proper: each channel is a byte.\<close>

definition rgb_color :: "color \<Rightarrow> bool" where
  "rgb_color c =
     (case c of (r, g, b) \<Rightarrow>
        0 \<le> r \<and> r \<le> 255 \<and> 0 \<le> g \<and> g \<le> 255 \<and> 0 \<le> b \<and> b \<le> 255)"

definition c_long_long :: "int \<Rightarrow> bool" where
  "c_long_long v = (- (2 ^ 63) \<le> v \<and> v < 2 ^ 63)"

definition c_int :: "int \<Rightarrow> bool" where
  "c_int v = (- (2 ^ 31) \<le> v \<and> v < 2 ^ 31)"

definition getink_rgb :: "color \<Rightarrow> error + pixel" where
  "getink_rgb c =
     (case c of (r, g, b) \<Rightarrow>
        if c_long_long r \<and> c_int g \<and> c_int b then Inr (ink_rgb (r, g, b))
        else Inl OverflowError)"

definition getink_rgba :: "color \<Rightarrow> int \<Rightarrow> error + pixel" where
  "getink_rgba c a =
     (case c of (r, g, b) \<Rightarrow>
        if c_long_long r \<and> c_int g \<and> c_int b \<and> c_int a then Inr (ink_rgba (r, g, b) a)
        else Inl OverflowError)"

text \<open>
  \<^verbatim>\<open>Image.new\<close> refuses a negative size, then converts the colour, and fills the
  canvas with it.
\<close>

definition image_new :: "int \<Rightarrow> int \<Rightarrow> error + pixel \<Rightarrow> error + image" where
  "image_new width height color =
     (if width < 0 \<or> height < 0 then Inl ValueError
      else case color of
             Inl e \<Rightarrow> Inl e
           | Inr p \<Rightarrow> Inr \<lparr>img_w = nat width, img_h = nat height, img_px = \<lambda>x y. p\<rparr>)"

text \<open>A drawing operation changes the pixels inside the canvas and ignores the others.\<close>

definition plot :: "pixel \<Rightarrow> int \<times> int \<Rightarrow> image \<Rightarrow> image" where
  "plot p xy img =
     (case xy of (x, y) \<Rightarrow>
        if 0 \<le> x \<and> x < int (img_w img) \<and> 0 \<le> y \<and> y < int (img_h img)
        then putpixel img (nat x) (nat y) p else img)"

text \<open>
  The points of a line of width 0 between two integer points, both end points
  included: the whole segment when it is horizontal or vertical, and the points of
  Bresenham's algorithm otherwise (\<open>bresenham\<close> walks \<open>n\<close> steps along the longer
  axis, \<open>e\<close> the error term). On a diagonal of 45 degrees these are the points of the
  diagonal. The program draws no other lines than horizontal, vertical and such
  diagonal ones.
\<close>

fun bresenham ::
  "nat \<Rightarrow> bool \<Rightarrow> int \<Rightarrow> int \<Rightarrow> int \<Rightarrow> int \<Rightarrow> int \<Rightarrow> int \<Rightarrow> int \<Rightarrow> (int \<times> int) list" where
  "bresenham 0 steep dmaj dmin xs ys e x y = [(x, y)]"
| "bresenham (Suc n) steep dmaj dmin xs ys e x y =
     (x, y) #
     (let minor = (0 \<le> e); e' = (if minor then e - dmaj else e) + dmin
      in if steep
         then bresenham n steep dmaj dmin xs ys e' (if minor then x + xs else x) (y + ys)
         else bresenham n steep dmaj dmin xs ys e' (x + xs) (if minor then y + ys else y))"

definition line_points :: "int \<times> int \<Rightarrow> int \<times> int \<Rightarrow> (int \<times> int) list" where
  "line_points p q =
     (case (p, q) of ((x0, y0), (x1, y1)) \<Rightarrow>
        if y0 = y1 then map (\<lambda>x. (x, y0)) [min x0 x1..max x0 x1]
        else if x0 = x1 then map (\<lambda>y. (x0, y)) [min y0 y1..max y0 y1]
        else let dx = \<bar>x1 - x0\<bar>; dy = \<bar>y1 - y0\<bar>;
                 xs = (if x1 < x0 then - 1 else 1); ys = (if y1 < y0 then - 1 else 1)
             in if dy < dx
                then bresenham (nat dx) False (2 * dx) (2 * dy) xs ys (2 * dy - dx) x0 y0
                else bresenham (nat dy) True (2 * dy) (2 * dx) xs ys (2 * dx - dy) x0 y0)"

definition draw_line :: "image \<Rightarrow> int \<times> int \<Rightarrow> int \<times> int \<Rightarrow> pixel \<Rightarrow> image" where
  "draw_line img p q fill = fold (plot fill) (line_points p q) img"

text \<open>
  The rest of the drawing library is taken as it comes: the rasterisers of ellipses,
  polygons and rectangles, the Gaussian blur, the paste of a strip through its own
  alpha band, and \<^verbatim>\<open>math.sin\<close> of the platform's C library, whose results are not
  fixed bit for bit. They are parameters of the generators that call them, and every
  statement below holds for all of them.
\<close>

record library =
  lib_ellipse :: "image \<Rightarrow> int \<times> int \<times> int \<times> int \<Rightarrow> pixel \<Rightarrow> image"
  lib_polygon :: "image \<Rightarrow> (rat \<times> rat) list \<Rightarrow> pixel \<Rightarrow> image"
  lib_rectangle :: "image \<Rightarrow> int \<times> int \<times> int \<times> int \<Rightarrow> pixel \<Rightarrow> image"
  lib_gaussian_blur :: "rat \<Rightarrow> image \<Rightarrow> image"
  lib_paste_masked :: "image \<Rightarrow> image \<Rightarrow> int \<times> int \<Rightarrow> image"
  lib_sin :: "rat \<Rightarrow> rat"

text \<open>A library that draws nothing, for the closed examples.\<close>

definition blank_library :: library where
  "blank_library =
     \<lparr>lib_ellipse = (\<lambda>img box p. img), lib_polygon = (\<lambda>img pts p. img),
      lib_rectangle = (\<lambda>img box p. img), lib_gaussian_blur = (\<lambda>radius img. img),
      lib_paste_masked = (\<lambda>img strip pos. img), lib_sin = (\<lambda>x. 0)\<rparr>"

text \<open>
  The file system, as far as the generators touch it: the files written so far, each
  with the canvas saved in it, and the paths at which the operating system lets the
  program open a file for writing (the directory exists, the name is one it accepts,
  the permissions suffice). Paths are relative to the directory of the script, in which
  the module creates the directories \<^verbatim>\<open>backgrounds\<close> and \<^verbatim>\<open>textures\<close> when it is loaded.
\<close>

record filesystem =
  fs_writable :: "string \<Rightarrow> bool"
  fs_files :: "string \<rightharpoonup> image"

text \<open>
  \<^verbatim>\<open>os.path.join\<close> of a directory and a name: a name that starts with a slash is an
  absolute path and the directory is dropped.
\<close>

definition path_join :: "string \<Rightarrow> string \<Rightarrow> string" where
  "path_join a b =
     (if b \<noteq> [] \<and> hd b = CHR ''/'' then b
      else if a = [] \<or> last a = CHR ''/'' then a @ b
      else a @ ''/'' @ b)"

definition backgrounds_dir :: string where
  "backgrounds_dir = ''backgrounds''"

definition textures_dir :: string where
  "textures_dir = ''textures''"

text \<open>
  \<^verbatim>\<open>img.save(filepath, 'PNG')\<close> opens the file for writing and then encodes the canvas
  into it. The open raises \<^verbatim>\<open>ValueError\<close> for a path with a null character and an
  \<^verbatim>\<open>OSError\<close> when the file cannot be opened; the encoder raises \<^verbatim>\<open>ValueError\<close> for a
  canvas without pixels.
\<close>

definition save :: "image \<Rightarrow> string \<Rightarrow> filesystem \<Rightarrow> error + filesystem" where
  "save img filepath fs =
     (if CHR 0x00 \<in> set filepath then Inl ValueError
      else if \<not> fs_writable fs filepath then Inl OSError
      else if img_w img = 0 \<or> img_h img = 0 then Inl ValueError
      else Inr (fs\<lparr>fs_files := (fs_files fs)(filepath \<mapsto> img)\<rparr>))"
section \<open>add_noise\<close>

text \<open>
  One pass of the body of the two loops of \<^verbatim>\<open>add_noise\<close>: the channels read, the
  draw \<^verbatim>\<open>noise\<close> added to each of them and clamped by \<^verbatim>\<open>max(0, min(255, _))\<close>, the
  fourth channel written back as it was read.
\<close>

fun noise_pixel :: "pixel \<Rightarrow> int \<Rightarrow> pixel" where
  "noise_pixel (RGB r g b) noise =
     RGB (store8 (max 0 (min 255 (uint r + noise))))
         (store8 (max 0 (min 255 (uint g + noise))))
         (store8 (max 0 (min 255 (uint b + noise))))"
| "noise_pixel (RGBA r g b a) noise =
     RGBA (store8 (max 0 (min 255 (uint r + noise))))
          (store8 (max 0 (min 255 (uint g + noise))))
          (store8 (max 0 (min 255 (uint b + noise))))
          a"

text \<open>The inner loop \<^verbatim>\<open>for j in range(height)\<close> at column \<open>i\<close>.\<close>

fun add_noise_col :: "int \<Rightarrow> nat \<Rightarrow> nat list \<Rightarrow> image \<Rightarrow> rng \<Rightarrow> error + image \<times> rng" where
  "add_noise_col intensity i [] img s = Inr (img, s)"
| "add_noise_col intensity i (j # js) img s =
     (case randint (- intensity) intensity s of
        Inl e \<Rightarrow> Inl e
      | Inr (noise, s') \<Rightarrow>
          add_noise_col intensity i js
            (putpixel img i j (noise_pixel (img_px img i j) noise)) s')"

text \<open>The outer loop \<^verbatim>\<open>for i in range(width)\<close>.\<close>

fun add_noise_cols :: "int \<Rightarrow> nat list \<Rightarrow> image \<Rightarrow> rng \<Rightarrow> error + image \<times> rng" where
  "add_noise_cols intensity [] img s = Inr (img, s)"
| "add_noise_cols intensity (i # is) img s =
     (case add_noise_col intensity i [0..<img_h img] img s of
        Inl e \<Rightarrow> Inl e
      | Inr (img', s') \<Rightarrow> add_noise_cols intensity is img' s')"

definition add_noise :: "image \<Rightarrow> int \<Rightarrow> rng \<Rightarrow> error + image \<times> rng" where
  "add_noise img intensity s = add_noise_cols intensity [0..<img_w img] img s"

text \<open>
  What one pixel may become under a pass of intensity \<open>I\<close>: the pixel with one draw of
  the interval added.
\<close>

definition noised :: "int \<Rightarrow> pixel \<Rightarrow> pixel \<Rightarrow> bool" where
  "noised I p q = (\<exists>d. - I \<le> d \<and> d \<le> I \<and> q = noise_pixel p d)"

section \<open>create_gradient\<close>

text \<open>
  One channel of the colour of line \<open>i\<close>,
  \<^verbatim>\<open>int(color1[k] * (1 - ratio) + color2[k] * ratio)\<close>, and the three of them.
\<close>

definition gradient_channel :: "int \<Rightarrow> int \<Rightarrow> rat \<Rightarrow> int" where
  "gradient_channel c1 c2 ratio =
     py_int (fadd (fmul (float_of_int c1) (fsub (float_of_int 1) ratio))
                  (fmul (float_of_int c2) ratio))"

fun gradient_color :: "color \<Rightarrow> color \<Rightarrow> rat \<Rightarrow> color" where
  "gradient_color (r1, g1, b1) (r2, g2, b2) ratio =
     (gradient_channel r1 r2 ratio, gradient_channel g1 g2 ratio, gradient_channel b1 b2 ratio)"

text \<open>
  The body of the loop: the ratio \<^verbatim>\<open>i / (height if direction == 'vertical' else width)\<close>,
  the colour, and the line across the canvas at \<open>i\<close>. Like every function of the
  module, \<^verbatim>\<open>create_gradient\<close> runs in the state of the random module: the embedding
  passes the stream in and returns it with the canvas.
\<close>

definition gradient_step ::
  "int \<Rightarrow> int \<Rightarrow> color \<Rightarrow> color \<Rightarrow> string \<Rightarrow> int \<Rightarrow> image \<times> rng \<Rightarrow> error + image \<times> rng" where
  "gradient_step width height color1 color2 direction i st =
     (case st of (img, s) \<Rightarrow>
        case int_truediv i (if direction = ''vertical'' then height else width) of
          Inl e \<Rightarrow> Inl e
        | Inr ratio \<Rightarrow>
            (case getink_rgb (gradient_color color1 color2 ratio) of
               Inl e \<Rightarrow> Inl e
             | Inr fill \<Rightarrow>
                 if direction = ''vertical''
                 then Inr (draw_line img (0, i) (width, i) fill, s)
                 else Inr (draw_line img (i, 0) (i, height) fill, s)))"

definition create_gradient ::
  "int \<Rightarrow> int \<Rightarrow> color \<Rightarrow> color \<Rightarrow> string \<Rightarrow> rng \<Rightarrow> error + image \<times> rng" where
  "create_gradient width height color1 color2 direction s =
     (case image_new width height (Inr (RGB 0 0 0)) of
        Inl e \<Rightarrow> Inl e
      | Inr img \<Rightarrow>
          for_each (gradient_step width height color1 color2 direction)
            (py_range (if direction = ''vertical'' then height else width)) (img, s))"

section \<open>The palette\<close>

text \<open>The entries of the dictionary \<^verbatim>\<open>COLORS\<close>, each under its key.\<close>

definition deep_black :: color where "deep_black = (15, 18, 25)"
definition charcoal :: color where "charcoal = (35, 40, 50)"
definition slate :: color where "slate = (70, 80, 95)"
definition ash :: color where "ash = (110, 120, 130)"
definition snow_white :: color where "snow_white = (220, 225, 230)"
definition earth_brown :: color where "earth_brown = (60, 45, 35)"
definition rust :: color where "rust = (90, 60, 45)"
definition amber :: color where "amber = (180, 140, 60)"
definition cold_blue :: color where "cold_blue = (80, 100, 130)"

section \<open>draw_building_silhouette\<close>

text \<open>
  The roofline. \<^verbatim>\<open>seg_x = x + i * segment_width\<close> is computed in floats, the
  coordinates of the other points are integers; a point is a pair of rationals. The
  loop appends one point for each \<open>i\<close> of \<^verbatim>\<open>range(num_segments + 1)\<close>, with one draw
  for its height.
\<close>

definition segment_x :: "int \<Rightarrow> rat \<Rightarrow> int \<Rightarrow> rat" where
  "segment_x x segment_width i = fadd (float_of_int x) (fmul (float_of_int i) segment_width)"

definition roofline_step ::
  "int \<Rightarrow> int \<Rightarrow> rat \<Rightarrow> int \<Rightarrow> (rat \<times> rat) list \<times> rng \<Rightarrow> error + (rat \<times> rat) list \<times> rng" where
  "roofline_step x top_y segment_width i st =
     (case st of (points, s) \<Rightarrow>
        let seg_x = segment_x x segment_width i
        in case randint (- 20) 30 s of
             Inl e \<Rightarrow> Inl e
           | Inr (d, s') \<Rightarrow> Inr (points @ [(seg_x, of_int (top_y + d))], s'))"

text \<open>
  The polygon of one building: the points handed to \<^verbatim>\<open>draw.polygon\<close>, with
  \<^verbatim>\<open>top_y\<close> and \<^verbatim>\<open>building_height\<close>, which the windows use.
\<close>

definition silhouette_points ::
  "int \<Rightarrow> int \<Rightarrow> int \<Rightarrow> int \<Rightarrow> rng \<Rightarrow> error + ((rat \<times> rat) list \<times> int \<times> int) \<times> rng" where
  "silhouette_points x width height base_y s =
     (case randint (height div 4) (height div 2) s of
        Inl e \<Rightarrow> Inl e
      | Inr (building_height, s1) \<Rightarrow>
          let top_y = base_y - building_height;
              points = [(of_int x, of_int base_y), (of_int x, of_int top_y)]
          in case randint 3 8 s1 of
               Inl e \<Rightarrow> Inl e
             | Inr (num_segments, s2) \<Rightarrow>
                 (case int_truediv width num_segments of
                    Inl e \<Rightarrow> Inl e
                  | Inr segment_width \<Rightarrow>
                      (case for_each (roofline_step x top_y segment_width)
                              (py_range (num_segments + 1)) (points, s2) of
                         Inl e \<Rightarrow> Inl e
                       | Inr (points', s3) \<Rightarrow>
                           Inr ((points' @ [(of_int (x + width), of_int base_y)],
                                 top_y, building_height), s3))))"

text \<open>
  One cell of the window grid: with probability 0.3 a window of 8 by 12, lit with
  probability 0.1 and darker than the wall otherwise. \<^verbatim>\<open>window_rows\<close> and
  \<^verbatim>\<open>window_cols\<close> are draws of 3 to 8 and of 2 to 5, so that the floor divisions
  never divide by zero.
\<close>

definition window_cell ::
  "library \<Rightarrow> int \<Rightarrow> int \<Rightarrow> int \<Rightarrow> int \<Rightarrow> int \<Rightarrow> int \<Rightarrow> color \<Rightarrow> int \<Rightarrow> int
     \<Rightarrow> image \<times> rng \<Rightarrow> error + image \<times> rng" where
  "window_cell lib x width top_y building_height window_rows window_cols color row col st =
     (case st of (img, s) \<Rightarrow>
        case random_unit s of (u, s1) \<Rightarrow>
          if u < fl (3 / 10)
          then let wx = x + 10 + col * (width - 20) div window_cols;
                   wy = top_y + 20 + row * (building_height - 40) div window_rows
               in case random_unit s1 of (v, s2) \<Rightarrow>
                    let window_color =
                          (if v < fl (1 / 10) then amber
                           else case color of (r, g, b) \<Rightarrow> (max 0 (r - 15), max 0 (g - 15), max 0 (b - 15)))
                    in case getink_rgb window_color of
                         Inl e \<Rightarrow> Inl e
                       | Inr fill \<Rightarrow>
                           Inr (lib_rectangle lib img (wx, wy, wx + 8, wy + 12) fill, s2)
          else Inr (img, s1))"

definition draw_building_silhouette ::
  "library \<Rightarrow> image \<Rightarrow> int \<Rightarrow> int \<Rightarrow> int \<Rightarrow> int \<Rightarrow> color \<Rightarrow> rng \<Rightarrow> error + image \<times> rng" where
  "draw_building_silhouette lib img x width height base_y color s =
     (case silhouette_points x width height base_y s of
        Inl e \<Rightarrow> Inl e
      | Inr ((points, top_y, building_height), s1) \<Rightarrow>
          (case getink_rgb color of
             Inl e \<Rightarrow> Inl e
           | Inr fill \<Rightarrow>
               let img1 = lib_polygon lib img points fill
               in case randint 3 8 s1 of
                    Inl e \<Rightarrow> Inl e
                  | Inr (window_rows, s2) \<Rightarrow>
                      (case randint 2 5 s2 of
                         Inl e \<Rightarrow> Inl e
                       | Inr (window_cols, s3) \<Rightarrow>
                           for_each
                             (\<lambda>row. for_each
                                (window_cell lib x width top_y building_height
                                   window_rows window_cols color row)
                                (py_range window_cols))
                             (py_range window_rows) (img1, s3))))"

section \<open>create_ui_texture\<close>




text \<open>
  The style \<^verbatim>\<open>inventory\<close>. The darkening term of the pixel \<open>(x, y)\<close>,
  \<^verbatim>\<open>int(30 * (dist / max_dist))\<close>, with the distances measured from
  \<^verbatim>\<open>(width // 2, height // 2)\<close>; the division raises when \<^verbatim>\<open>max_dist\<close> is zero.
\<close>

definition inventory_darkness :: "int \<Rightarrow> int \<Rightarrow> int \<Rightarrow> int \<Rightarrow> error + int" where
  "inventory_darkness width height x y =
     (let center_x = width div 2; center_y = height div 2
      in case fsqrt (float_of_int ((x - center_x) ^ 2 + (y - center_y) ^ 2)) of
           Inl e \<Rightarrow> Inl e
         | Inr dist' \<Rightarrow>
             (case fsqrt (float_of_int (center_x ^ 2 + center_y ^ 2)) of
                Inl e \<Rightarrow> Inl e
              | Inr max_dist \<Rightarrow>
                  (case fdiv dist' max_dist of
                     Inl e \<Rightarrow> Inl e
                   | Inr q \<Rightarrow> Inr (py_int (fmul (float_of_int 30) q)))))"

text \<open>
  The three channels of the pixel, each \<^verbatim>\<open>max(0, base_color[k] - darkness + random.randint(-5, 5))\<close>
  with a draw of its own.
\<close>

definition inventory_rgb :: "color \<Rightarrow> int \<Rightarrow> rng \<Rightarrow> error + color \<times> rng" where
  "inventory_rgb base_color darkness s =
     (case base_color of (r0, g0, b0) \<Rightarrow>
        case randint (- 5) 5 s of Inl e \<Rightarrow> Inl e | Inr (d1, s1) \<Rightarrow>
        case randint (- 5) 5 s1 of Inl e \<Rightarrow> Inl e | Inr (d2, s2) \<Rightarrow>
        case randint (- 5) 5 s2 of Inl e \<Rightarrow> Inl e | Inr (d3, s3) \<Rightarrow>
          Inr ((max 0 (r0 - darkness + d1), max 0 (g0 - darkness + d2),
                max 0 (b0 - darkness + d3)), s3))"

definition inventory_pixel ::
  "int \<Rightarrow> int \<Rightarrow> color \<Rightarrow> int \<Rightarrow> int \<Rightarrow> image \<times> rng \<Rightarrow> error + image \<times> rng" where
  "inventory_pixel width height base_color y x st =
     (case st of (img, s) \<Rightarrow>
        case inventory_darkness width height x y of
          Inl e \<Rightarrow> Inl e
        | Inr darkness \<Rightarrow>
            (case inventory_rgb base_color darkness s of
               Inl e \<Rightarrow> Inl e
             | Inr (rgb, s') \<Rightarrow>
                 (case getink_rgba rgb 255 of
                    Inl e \<Rightarrow> Inl e
                  | Inr p \<Rightarrow> Inr (putpixel img (nat x) (nat y) p, s'))))"




section \<open>create_brush_stroke_speaker\<close>

text \<open>
  \<^verbatim>\<open>math.pi\<close> is the binary64 number nearest to \<open>\<pi>\<close>. The wave factor of a row is
  \<^verbatim>\<open>math.sin(progress * math.pi) * 0.3 + 0.7\<close>, with the sine of the library.
\<close>

definition math_pi :: rat where
  "math_pi = 884279719003555 / 281474976710656"

definition wave_of :: "library \<Rightarrow> rat \<Rightarrow> rat" where
  "wave_of lib progress =
     fadd (fmul (lib_sin lib (fmul progress math_pi)) (fl (3 / 10))) (fl (7 / 10))"

text \<open>
  The body of the first loop, at row \<open>y\<close>: the two ends of the span, the colour, the
  opacity \<^verbatim>\<open>int(220 * wave) + random.randint(-20, 20)\<close> clamped by
  \<^verbatim>\<open>max(0, min(255, alpha))\<close>, and the line.
\<close>

definition speaker_row ::
  "library \<Rightarrow> int \<Rightarrow> int \<Rightarrow> color \<Rightarrow> int \<Rightarrow> image \<times> rng \<Rightarrow> error + image \<times> rng" where
  "speaker_row lib width height brush_color y st =
     (case st of (img, s) \<Rightarrow>
        case int_truediv y height of Inl e \<Rightarrow> Inl e | Inr progress \<Rightarrow>
          let wave = wave_of lib progress
          in case randint (- 2) 2 s of Inl e \<Rightarrow> Inl e | Inr (j1, s1) \<Rightarrow>
               let start_x = py_int (fadd (fsub (float_of_int 10) (fmul wave (float_of_int 8)))
                                          (float_of_int j1))
               in case randint (- 2) 2 s1 of Inl e \<Rightarrow> Inl e | Inr (j2, s2) \<Rightarrow>
                    let end_x = py_int (fadd (fadd (float_of_int (width - 10))
                                                   (fmul wave (float_of_int 8)))
                                             (float_of_int j2))
                    in case randint (- 10) 10 s2 of Inl e \<Rightarrow> Inl e | Inr (variation, s3) \<Rightarrow>
                         let color = (case brush_color of (r, g, b) \<Rightarrow>
                                        (max 0 (min 255 (r + variation)),
                                         max 0 (min 255 (g + variation)),
                                         max 0 (min 255 (b + variation))))
                         in case randint (- 20) 20 s3 of Inl e \<Rightarrow> Inl e | Inr (j, s4) \<Rightarrow>
                              let alpha = py_int (fmul (float_of_int 220) wave) + j;
                                  alpha = max 0 (min 255 alpha)
                              in case getink_rgba color alpha of
                                   Inl e \<Rightarrow> Inl e
                                 | Inr fill \<Rightarrow>
                                     Inr (draw_line img (start_x, y) (end_x, y) fill, s4))"

text \<open>The body of the second loop: one dot of the texture.\<close>

definition speaker_dot ::
  "library \<Rightarrow> int \<Rightarrow> int \<Rightarrow> color \<Rightarrow> int \<Rightarrow> image \<times> rng \<Rightarrow> error + image \<times> rng" where
  "speaker_dot lib width height brush_color k st =
     (case st of (img, s) \<Rightarrow>
        case randint 15 (width - 15) s of Inl e \<Rightarrow> Inl e | Inr (x, s1) \<Rightarrow>
        case randint 8 (height - 8) s1 of Inl e \<Rightarrow> Inl e | Inr (y, s2) \<Rightarrow>
        case randint 1 3 s2 of Inl e \<Rightarrow> Inl e | Inr (size', s3) \<Rightarrow>
        case randint (- 20) 20 s3 of Inl e \<Rightarrow> Inl e | Inr (darkness, s4) \<Rightarrow>
          let color = (case brush_color of (r, g, b) \<Rightarrow>
                         (max 0 (min 255 (r + darkness)), max 0 (min 255 (g + darkness)),
                          max 0 (min 255 (b + darkness))))
          in case getink_rgba color 180 of Inl e \<Rightarrow> Inl e | Inr fill \<Rightarrow>
               Inr (lib_ellipse lib img (x, y, x + size', y + size') fill, s4))"

text \<open>
  \<^verbatim>\<open>range(a, b)\<close>, and the generator. \<open>speaker_stroke\<close> is its first part, the
  transparent canvas and the loop over the rows of the stroke; the dots and the save follow.
\<close>

definition py_range2 :: "int \<Rightarrow> int \<Rightarrow> int list" where
  "py_range2 a b = [a..b - 1]"

definition speaker_stroke :: "library \<Rightarrow> int \<Rightarrow> int \<Rightarrow> rng \<Rightarrow> error + image \<times> rng" where
  "speaker_stroke lib width height s =
     (case image_new width height (getink_rgba (0, 0, 0) 0) of
        Inl e \<Rightarrow> Inl e
      | Inr img \<Rightarrow>
          for_each (speaker_row lib width height rust) (py_range2 5 (height - 5)) (img, s))"

definition create_brush_stroke_speaker ::
  "library \<Rightarrow> rng \<Rightarrow> filesystem \<Rightarrow> error + string \<times> rng \<times> filesystem" where
  "create_brush_stroke_speaker lib s fs =
     (let width = 200; height = 40
      in case speaker_stroke lib width height s of
           Inl e \<Rightarrow> Inl e
         | Inr st1 \<Rightarrow>
             (case for_each (speaker_dot lib width height rust) (py_range 100) st1 of
                Inl e \<Rightarrow> Inl e
              | Inr (img2, s2) \<Rightarrow>
                  let filepath = path_join textures_dir ''speaker_brush.png''
                  in case save img2 filepath fs of
                       Inl e \<Rightarrow> Inl e
                     | Inr fs' \<Rightarrow> Inr (filepath, s2, fs')))"

section \<open>Properties of the rounding function\<close>

lemma bitlen_powi:
  assumes "0 < p"
  shows "(2::rat) powi (bitlen p - 1) \<le> of_int p" and "of_int p < (2::rat) powi (bitlen p)"
proof -
  from assms have b1: "1 \<le> bitlen p"
    by (simp add: bitlen_alt_def)
  from bitlen_bounds [OF assms]
  have lo: "2 ^ nat (bitlen p - 1) \<le> p" and hi: "p < 2 ^ nat (bitlen p)"
    by simp_all
  have "(of_int (2 ^ nat (bitlen p - 1)) :: rat) \<le> of_int p"
    using lo by (simp only: of_int_le_iff)
  then show "(2::rat) powi (bitlen p - 1) \<le> of_int p"
    using b1 by (simp add: power_int_def)
  have "(of_int p :: rat) < of_int (2 ^ nat (bitlen p))"
    using hi by (simp only: of_int_less_iff)
  then show "of_int p < (2::rat) powi (bitlen p)"
    using b1 by (simp add: power_int_def)
qed

lemma ilog2_bounds:
  assumes "0 < x"
  shows "2 powi (ilog2 x) \<le> x" and "x < 2 powi (ilog2 x + 1)"
proof -
  obtain p q where pq: "quotient_of x = (p, q)"
    by (cases "quotient_of x")
  then have q: "0 < q" and x: "x = of_int p / of_int q"
    by (simp_all add: quotient_of_denom_pos quotient_of_div)
  with assms have p: "0 < p"
    by (simp add: zero_less_divide_iff)
  define e where "e = bitlen p - bitlen q"
  have qr: "(0::rat) < of_int q" using q by simp
  have up: "x < 2 powi (e + 1)"
  proof -
    have "of_int p < (2::rat) powi (bitlen p)"
      by (rule bitlen_powi [OF p])
    also have "\<dots> = 2 powi (e + 1) * 2 powi (bitlen q - 1)"
      by (simp add: e_def power_int_add [symmetric])
    also have "\<dots> \<le> 2 powi (e + 1) * of_int q"
      using bitlen_powi(1) [OF q] by (simp add: mult_left_mono)
    finally show ?thesis
      using qr by (simp add: x pos_divide_less_eq)
  qed
  have lo: "2 powi (e - 1) < x"
  proof -
    have "2 powi (e - 1) * of_int q < (2::rat) powi (e - 1) * 2 powi (bitlen q)"
      using bitlen_powi(2) [OF q] by (simp add: mult_strict_left_mono)
    also have "\<dots> = 2 powi (bitlen p - 1)"
      by (simp add: e_def power_int_add [symmetric])
    also have "\<dots> \<le> of_int p"
      by (rule bitlen_powi [OF p])
    finally show ?thesis
      using qr by (simp add: x pos_less_divide_eq)
  qed
  have il: "ilog2 x = (if 2 powi e \<le> x then e else e - 1)"
    by (simp add: ilog2_def pq e_def Let_def)
  show "2 powi (ilog2 x) \<le> x"
    using lo by (simp add: il)
  show "x < 2 powi (ilog2 x + 1)"
    using up by (auto simp: il)
qed

lemma powi2_le: "a \<le> b \<Longrightarrow> (2::rat) powi a \<le> 2 powi b"
  by (rule power_int_increasing) simp_all

lemma powi2_less: "a < b \<Longrightarrow> (2::rat) powi a < 2 powi b"
  by (rule power_int_strict_increasing) simp_all

lemma powi2_less_iff: "(2::rat) powi a < 2 powi b \<longleftrightarrow> a < b"
  using powi2_less [of a b] powi2_le [of b a] by (cases "a < b") auto

lemma powi2_le_iff: "(2::rat) powi a \<le> 2 powi b \<longleftrightarrow> a \<le> b"
  using powi2_le [of a b] powi2_less [of b a] by (cases "a \<le> b") auto

lemma ilog2_mono:
  assumes "0 < x" "x \<le> y"
  shows "ilog2 x \<le> ilog2 y"
proof -
  have "2 powi (ilog2 x) \<le> x" using assms by (simp add: ilog2_bounds)
  also have "x \<le> y" by fact
  also have "y < 2 powi (ilog2 y + 1)" using assms by (simp add: ilog2_bounds)
  finally show ?thesis by (simp add: powi2_less_iff)
qed

lemma ilog2_less:
  assumes "0 < x" "x < 2 powi k"
  shows "ilog2 x < k"
proof -
  have "2 powi (ilog2 x) \<le> x" using assms by (simp add: ilog2_bounds)
  also have "x < 2 powi k" by fact
  finally show ?thesis by (simp add: powi2_less_iff)
qed

lemma round_half_even_of_int: "round_half_even (of_int n) = n"
  by (simp add: round_half_even_def)

lemma round_half_even_floor: "\<lfloor>q\<rfloor> \<le> round_half_even q" "round_half_even q \<le> \<lfloor>q\<rfloor> + 1"
  by (simp_all add: round_half_even_def Let_def)

lemma round_half_even_mono:
  assumes "a \<le> b"
  shows "round_half_even a \<le> round_half_even b"
proof (cases "\<lfloor>a\<rfloor> = \<lfloor>b\<rfloor>")
  case True
  with assms show ?thesis
    by (auto simp: round_half_even_def Let_def)
next
  case False
  with assms have "\<lfloor>a\<rfloor> < \<lfloor>b\<rfloor>"
    by (simp add: floor_mono order.strict_iff_order)
  with round_half_even_floor(2) [of a] round_half_even_floor(1) [of b]
  show ?thesis by linarith
qed

lemma round_half_even_ge: "of_int n \<le> q \<Longrightarrow> n \<le> round_half_even q"
  using round_half_even_mono [of "of_int n" q] by (simp add: round_half_even_of_int)

lemma round_half_even_le: "q \<le> of_int n \<Longrightarrow> round_half_even q \<le> n"
  using round_half_even_mono [of q "of_int n"] by (simp add: round_half_even_of_int)


lemma fl_zero: "fl 0 = 0"
  by (simp add: fl_def)

lemma fl_uminus: "fl (- x) = - fl x"
  by (simp add: fl_def Let_def)

lemma fl_pos_eq:
  assumes "0 < x"
  shows "fl x = of_int (round_half_even (x / 2 powi (max (ilog2 x) (- 1022) - 52)))
                  * 2 powi (max (ilog2 x) (- 1022) - 52)"
  using assms by (simp add: fl_def Let_def)

lemma powi2_pos: "(0::rat) < 2 powi k"
  by (simp add: zero_less_power_int)

lemma powi2_split: "(2::rat) ^ n * 2 powi (e - int n) = 2 powi e"
proof -
  have "(2::rat) powi (int n + (e - int n)) = 2 powi int n * 2 powi (e - int n)"
    by (rule power_int_add) simp
  then show ?thesis by simp
qed

lemma fl_nonneg:
  assumes "0 \<le> x"
  shows "0 \<le> fl x"
proof (cases "x = 0")
  case True
  then show ?thesis by (simp add: fl_zero)
next
  case False
  with assms have x: "0 < x" by simp
  let ?u = "(2::rat) powi (max (ilog2 x) (- 1022) - 52)"
  have "of_int 0 \<le> x / ?u"
    using x powi2_pos [of "max (ilog2 x) (- 1022) - 52"] by simp
  then have "0 \<le> round_half_even (x / ?u)"
    by (rule round_half_even_ge)
  then show ?thesis
    using powi2_pos [of "max (ilog2 x) (- 1022) - 52"] by (simp add: fl_pos_eq [OF x])
qed

lemma fl_upper:
  assumes "0 < x"
  shows "fl x \<le> 2 powi (max (ilog2 x) (- 1022) + 1)"
proof -
  define e where "e = max (ilog2 x) (- 1022)"
  let ?u = "(2::rat) powi (e - 52)"
  have u: "0 < ?u" by (rule powi2_pos)
  have "x < 2 powi (ilog2 x + 1)"
    by (rule ilog2_bounds [OF assms])
  also have "\<dots> \<le> 2 powi (e + 1)"
    by (rule powi2_le) (simp add: e_def)
  also have "\<dots> = 2 ^ 53 * ?u"
    using powi2_split [of 53 "e + 1"] by simp
  finally have "x / ?u \<le> 2 ^ 53"
    using u by (simp add: pos_divide_le_eq)
  then have "x / ?u \<le> of_int (2 ^ 53)"
    by simp
  then have "round_half_even (x / ?u) \<le> 2 ^ 53"
    by (rule round_half_even_le)
  then have "(of_int (round_half_even (x / ?u)) :: rat) \<le> of_int (2 ^ 53)"
    by (simp only: of_int_le_iff)
  then have "of_int (round_half_even (x / ?u)) * ?u \<le> of_int (2 ^ 53) * ?u"
    using u by (simp only: mult_right_mono less_imp_le)
  also have "of_int (2 ^ 53) * ?u = 2 powi (e + 1)"
    using powi2_split [of 53 "e + 1"] by simp
  finally show ?thesis
    by (simp add: fl_pos_eq [OF assms] e_def)
qed

lemma fl_lower:
  assumes "0 < x" and "- 1022 \<le> ilog2 x"
  shows "2 powi (ilog2 x) \<le> fl x"
proof -
  define e where "e = ilog2 x"
  have m: "max (ilog2 x) (- 1022) = e"
    using assms(2) by (simp add: e_def)
  let ?u = "(2::rat) powi (e - 52)"
  have u: "0 < ?u" by (rule powi2_pos)
  have split: "2 ^ 52 * ?u = 2 powi e"
    using powi2_split [of 52 e] by simp
  also have "\<dots> \<le> x"
    unfolding e_def by (rule ilog2_bounds [OF assms(1)])
  finally have "2 ^ 52 \<le> x / ?u"
    using u by (simp add: pos_le_divide_eq)
  then have "of_int (2 ^ 52) \<le> x / ?u"
    by simp
  then have "2 ^ 52 \<le> round_half_even (x / ?u)"
    by (rule round_half_even_ge)
  then have "(of_int (2 ^ 52) :: rat) \<le> of_int (round_half_even (x / ?u))"
    by (simp only: of_int_le_iff)
  then have a: "of_int (2 ^ 52) * ?u \<le> of_int (round_half_even (x / ?u)) * ?u"
    using u by (simp only: mult_right_mono less_imp_le)
  have b: "of_int (2 ^ 52) * ?u = 2 powi e"
    using split by simp
  from a have "2 powi e \<le> of_int (round_half_even (x / ?u)) * ?u"
    unfolding b .
  then show ?thesis
    by (simp add: fl_pos_eq [OF assms(1)] m) (simp add: e_def)
qed

lemma fl_mono_pos:
  assumes "0 < x" "x \<le> y"
  shows "fl x \<le> fl y"
proof -
  from assms have y: "0 < y" by simp
  define ex where "ex = max (ilog2 x) (- 1022)"
  define ey where "ey = max (ilog2 y) (- 1022)"
  have le: "ex \<le> ey"
    using ilog2_mono [OF assms] by (simp add: ex_def ey_def)
  show ?thesis
  proof (cases "ex = ey")
    case True
    let ?u = "(2::rat) powi (ey - 52)"
    have u: "0 < ?u" by (rule powi2_pos)
    have "x / ?u \<le> y / ?u"
      using assms(2) u by (simp add: divide_right_mono)
    then have "round_half_even (x / ?u) \<le> round_half_even (y / ?u)"
      by (rule round_half_even_mono)
    then have "(of_int (round_half_even (x / ?u)) :: rat) \<le> of_int (round_half_even (y / ?u))"
      by (simp only: of_int_le_iff)
    then have "of_int (round_half_even (x / ?u)) * ?u \<le> of_int (round_half_even (y / ?u)) * ?u"
      using u by (simp only: mult_right_mono less_imp_le)
    then show ?thesis
      using True by (simp add: fl_pos_eq [OF assms(1)] fl_pos_eq [OF y] ex_def ey_def)
  next
    case False
    with le have lt: "ex < ey" by simp
    then have ny: "- 1022 \<le> ilog2 y" and eyy: "ey = ilog2 y"
      unfolding ex_def ey_def by linarith+
    have "fl x \<le> 2 powi (ex + 1)"
      unfolding ex_def by (rule fl_upper [OF assms(1)])
    also have "\<dots> \<le> 2 powi ey"
      by (rule powi2_le) (use lt in simp)
    also have "\<dots> \<le> fl y"
      unfolding eyy by (rule fl_lower [OF y ny])
    finally show ?thesis .
  qed
qed

lemma fl_mono:
  assumes "x \<le> y"
  shows "fl x \<le> fl y"
proof -
  consider "0 < x" | "x \<le> 0" "0 \<le> y" | "y < 0"
    using assms by linarith
  then show ?thesis
  proof cases
    case 1
    then show ?thesis using assms by (rule fl_mono_pos)
  next
    case 2
    have "fl x \<le> 0"
      using fl_nonneg [of "- x"] 2(1) by (simp add: fl_uminus)
    also have "0 \<le> fl y"
      using 2(2) by (rule fl_nonneg)
    finally show ?thesis .
  next
    case 3
    have "fl (- y) \<le> fl (- x)"
      using 3 assms by (intro fl_mono_pos) simp_all
    then show ?thesis by (simp add: fl_uminus)
  qed
qed

lemma fl_exact_pos:
  assumes "0 < m" "m < 2 ^ 53" "- 1074 \<le> k"
  shows "fl (of_int m * 2 powi k) = of_int m * 2 powi k"
proof -
  define x :: rat where "x = of_int m * 2 powi k"
  have x: "0 < x"
    using assms(1) powi2_pos [of k] by (simp add: x_def)
  define e where "e = max (ilog2 x) (- 1022)"
  have "(of_int m :: rat) < of_int (2 ^ 53)"
    using assms(2) by (simp only: of_int_less_iff)
  then have "x < of_int (2 ^ 53) * 2 powi k"
    unfolding x_def using powi2_pos [of k] by (simp only: mult_strict_right_mono)
  also have "\<dots> = 2 powi (k + 53)"
    using powi2_split [of 53 "k + 53"] by simp
  finally have "ilog2 x < k + 53"
    by (rule ilog2_less [OF x])
  with assms(3) have d: "0 \<le> k + 52 - e"
    by (simp add: e_def)
  let ?u = "(2::rat) powi (e - 52)"
  have "x / ?u = of_int m * (2 powi k / ?u)"
    by (simp add: x_def)
  also have "2 powi k / ?u = (2::rat) powi (k - (e - 52))"
    by (simp add: power_int_diff)
  also have "\<dots> = 2 ^ nat (k + 52 - e)"
    using d by (simp add: power_int_def algebra_simps)
  finally have q: "x / ?u = of_int (m * 2 ^ nat (k + 52 - e))"
    by simp
  have "fl x = of_int (round_half_even (x / ?u)) * ?u"
    by (simp add: fl_pos_eq [OF x] e_def)
  also have "\<dots> = x / ?u * ?u"
    by (simp only: q round_half_even_of_int)
  also have "\<dots> = x"
    using powi2_pos [of "e - 52"] by simp
  finally show ?thesis by (simp add: x_def)
qed

lemma fl_exact:
  assumes "\<bar>m\<bar> < 2 ^ 53" "- 1074 \<le> k"
  shows "fl (of_int m * 2 powi k) = of_int m * 2 powi k"
proof -
  consider "m = 0" | "0 < m" | "m < 0" by linarith
  then show ?thesis
  proof cases
    case 1
    then show ?thesis by (simp add: fl_zero)
  next
    case 2
    with assms show ?thesis by (intro fl_exact_pos) simp_all
  next
    case 3
    with assms have "fl (of_int (- m) * 2 powi k) = of_int (- m) * 2 powi k"
      by (intro fl_exact_pos) simp_all
    then show ?thesis
      using fl_uminus [of "of_int m * 2 powi k"] by simp
  qed
qed

lemma fl_of_int:
  assumes "\<bar>n\<bar> < 2 ^ 53"
  shows "fl (of_int n) = of_int n"
  using fl_exact [OF assms, of 0] by simp

section \<open>Properties of add_noise\<close>

lemma uint_store8: "uint (store8 v) = max 0 (min 255 v)"
proof -
  have "0 \<le> max 0 (min 255 v)" "max 0 (min 255 v) < 2 ^ 8"
    by simp_all
  then show ?thesis
    unfolding store8_def by (simp add: uint_word_of_int)
qed

lemma uint_byte_le: "uint (w :: 8 word) \<le> 255"
  using uint_bounded [of w] by simp

lemma store8_uint: "store8 (uint (w :: 8 word)) = w"
proof -
  have "uint (store8 (uint w)) = uint w"
    using uint_byte_le [of w] by (simp add: uint_store8)
  then show ?thesis by (simp only: word_uint_eq_iff [symmetric])
qed

lemma noise_pixel_zero: "noise_pixel p 0 = p"
  using uint_byte_le by (cases p) (simp_all add: store8_uint)

lemma randint_ok:
  assumes "a \<le> b"
  shows "\<exists>d. a \<le> d \<and> d \<le> b \<and> randint a b s = Inr (d, advance s)"
proof -
  have pos: "0 < nat (b - a + 1)" using assms by simp
  have "s 0 mod nat (b - a + 1) < nat (b - a + 1)"
    using pos by simp
  then have "a + int (s 0 mod nat (b - a + 1)) \<le> b"
    using assms by linarith
  moreover have "a \<le> a + int (s 0 mod nat (b - a + 1))" by simp
  ultimately show ?thesis
    using assms by (simp add: randint_def)
qed

lemma add_noise_col_spec:
  assumes "0 \<le> I" and "distinct js"
  shows "\<exists>img' s'. add_noise_col I i js img s = Inr (img', s')
           \<and> img_w img' = img_w img \<and> img_h img' = img_h img
           \<and> (\<forall>x y. if x = i \<and> y \<in> set js
                 then noised I (img_px img x y) (img_px img' x y)
                 else img_px img' x y = img_px img x y)"
  using assms(2)
proof (induction js arbitrary: img s)
  case Nil
  then show ?case by simp
next
  case (Cons j js)
  from assms(1) have "- I \<le> I" by simp
  from randint_ok [OF this, of s] obtain d
    where d: "- I \<le> d" "d \<le> I" "randint (- I) I s = Inr (d, advance s)"
    by blast
  define img1 where "img1 = putpixel img i j (noise_pixel (img_px img i j) d)"
  from Cons.prems have dj: "distinct js" and nj: "j \<notin> set js" by simp_all
  from Cons.IH [OF dj, of img1 "advance s"] obtain img' s'
    where run: "add_noise_col I i js img1 (advance s) = Inr (img', s')"
      and w: "img_w img' = img_w img1" and h: "img_h img' = img_h img1"
      and px: "\<forall>x y. if x = i \<and> y \<in> set js
                 then noised I (img_px img1 x y) (img_px img' x y)
                 else img_px img' x y = img_px img1 x y"
    by blast
  have "add_noise_col I i (j # js) img s = Inr (img', s')"
    using d(3) run by (simp add: img1_def)
  moreover have "img_w img' = img_w img" "img_h img' = img_h img"
    using w h by (simp_all add: img1_def putpixel_def)
  moreover have "\<forall>x y. if x = i \<and> y \<in> set (j # js)
                 then noised I (img_px img x y) (img_px img' x y)
                 else img_px img' x y = img_px img x y"
  proof (intro allI)
    fix x y
    show "if x = i \<and> y \<in> set (j # js)
          then noised I (img_px img x y) (img_px img' x y)
          else img_px img' x y = img_px img x y"
    proof (cases "x = i \<and> y = j")
      case True
      then have "img_px img' x y = img_px img1 x y"
        using px nj by (auto split: if_splits)
      also have "\<dots> = noise_pixel (img_px img x y) d"
        using True by (simp add: img1_def putpixel_def)
      finally show ?thesis
        using True d(1,2) by (auto simp: noised_def)
    next
      case False
      then have same: "img_px img1 x y = img_px img x y"
        by (auto simp: img1_def putpixel_def)
      from px have "if x = i \<and> y \<in> set js
                 then noised I (img_px img1 x y) (img_px img' x y)
                 else img_px img' x y = img_px img1 x y"
        by blast
      then show ?thesis
        using False same by (auto split: if_splits)
    qed
  qed
  ultimately show ?case by blast
qed

lemma add_noise_cols_spec:
  assumes "0 \<le> I" and "distinct is"
  shows "\<exists>img' s'. add_noise_cols I is img s = Inr (img', s')
           \<and> img_w img' = img_w img \<and> img_h img' = img_h img
           \<and> (\<forall>x y. if x \<in> set is \<and> y < img_h img
                 then noised I (img_px img x y) (img_px img' x y)
                 else img_px img' x y = img_px img x y)"
  using assms(2)
proof (induction "is" arbitrary: img s)
  case Nil
  then show ?case by simp
next
  case (Cons i "is")
  from add_noise_col_spec [OF assms(1), of "[0..<img_h img]" i img s] obtain img1 s1
    where run1: "add_noise_col I i [0..<img_h img] img s = Inr (img1, s1)"
      and w1: "img_w img1 = img_w img" and h1: "img_h img1 = img_h img"
      and px1: "\<forall>x y. if x = i \<and> y \<in> set [0..<img_h img]
                 then noised I (img_px img x y) (img_px img1 x y)
                 else img_px img1 x y = img_px img x y"
    by auto
  from Cons.prems have di: "distinct is" and ni: "i \<notin> set is" by simp_all
  from Cons.IH [OF di, of img1 s1] obtain img' s'
    where run: "add_noise_cols I is img1 s1 = Inr (img', s')"
      and w: "img_w img' = img_w img1" and h: "img_h img' = img_h img1"
      and px: "\<forall>x y. if x \<in> set is \<and> y < img_h img1
                 then noised I (img_px img1 x y) (img_px img' x y)
                 else img_px img' x y = img_px img1 x y"
    by blast
  have "add_noise_cols I (i # is) img s = Inr (img', s')"
    using run1 run by simp
  moreover have "img_w img' = img_w img" "img_h img' = img_h img"
    using w h w1 h1 by simp_all
  moreover have "\<forall>x y. if x \<in> set (i # is) \<and> y < img_h img
                 then noised I (img_px img x y) (img_px img' x y)
                 else img_px img' x y = img_px img x y"
  proof (intro allI)
    fix x y
    from px1 have a: "if x = i \<and> y \<in> set [0..<img_h img]
                 then noised I (img_px img x y) (img_px img1 x y)
                 else img_px img1 x y = img_px img x y"
      by blast
    from px have b: "if x \<in> set is \<and> y < img_h img1
                 then noised I (img_px img1 x y) (img_px img' x y)
                 else img_px img' x y = img_px img1 x y"
      by blast
    show "if x \<in> set (i # is) \<and> y < img_h img
          then noised I (img_px img x y) (img_px img' x y)
          else img_px img' x y = img_px img x y"
      using a b ni h1 by (auto split: if_splits)
  qed
  ultimately show ?case by blast
qed

lemma add_noise_spec:
  assumes "0 \<le> I"
  shows "\<exists>img' s'. add_noise img I s = Inr (img', s')
           \<and> img_w img' = img_w img \<and> img_h img' = img_h img
           \<and> (\<forall>x y. if x < img_w img \<and> y < img_h img
                 then noised I (img_px img x y) (img_px img' x y)
                 else img_px img' x y = img_px img x y)"
  using add_noise_cols_spec [OF assms, of "[0..<img_w img]" img s]
  by (simp add: add_noise_def)

lemma clamp_near:
  fixes c d I :: int
  assumes "0 \<le> c" "c \<le> 255" "- I \<le> d" "d \<le> I"
  shows "\<bar>max 0 (min 255 (c + d)) - c\<bar> \<le> I"
  using assms by (auto simp: max_def min_def)

lemma noise_pixel_channels:
  "red (noise_pixel p d) = max 0 (min 255 (red p + d))"
  "green (noise_pixel p d) = max 0 (min 255 (green p + d))"
  "blue (noise_pixel p d) = max 0 (min 255 (blue p + d))"
  "alpha (noise_pixel p d) = alpha p"
  by (cases p; simp add: uint_store8)+

lemma channel_range:
  "0 \<le> red p" "red p \<le> 255" "0 \<le> green p" "green p \<le> 255" "0 \<le> blue p" "blue p \<le> 255"
  by (cases p; simp add: uint_byte_le)+

lemma noised_zero: "noised 0 p q \<Longrightarrow> q = p"
  by (auto simp: noised_def noise_pixel_zero)

lemma drop_draws_0: "drop_draws 0 s = s"
  by (simp add: drop_draws_def)

lemma advance_drop_draws: "advance (drop_draws k s) = drop_draws (Suc k) s"
  by (simp add: advance_def drop_draws_def)

lemma randint_at:
  assumes "a \<le> b"
  shows "randint a b (drop_draws k s) = Inr (nth_randint a b s k, drop_draws (Suc k) s)"
  using assms by (simp add: randint_def advance_drop_draws nth_randint_def) (simp add: drop_draws_def)

lemma nth_randint_range:
  assumes "a \<le> b"
  shows "a \<le> nth_randint a b s k" "nth_randint a b s k \<le> b"
proof -
  have "s k mod nat (b - a + 1) < nat (b - a + 1)"
    using assms by simp
  then show "nth_randint a b s k \<le> b"
    unfolding nth_randint_def using assms by linarith
  show "a \<le> nth_randint a b s k"
    by (simp add: nth_randint_def)
qed

lemma putpixel_px:
  "img_px (putpixel img i j p) x y = (if x = i \<and> y = j then p else img_px img x y)"
  by (simp add: putpixel_def)

lemma putpixel_size:
  "img_w (putpixel img i j p) = img_w img" "img_h (putpixel img i j p) = img_h img"
  by (simp_all add: putpixel_def)

lemma add_noise_col_track:
  assumes "0 \<le> I" and "distinct js"
  shows "\<exists>img'. add_noise_col I i js img (drop_draws m s)
                  = Inr (img', drop_draws (m + length js) s)
           \<and> img_w img' = img_w img \<and> img_h img' = img_h img
           \<and> (\<forall>x y. x \<noteq> i \<or> y \<notin> set js \<longrightarrow> img_px img' x y = img_px img x y)
           \<and> (\<forall>n. n < length js \<longrightarrow>
                 img_px img' i (js ! n)
                   = noise_pixel (img_px img i (js ! n)) (nth_randint (- I) I s (m + n)))"
  using assms(2)
proof (induction js arbitrary: img m)
  case Nil
  then show ?case by simp
next
  case (Cons j js)
  from assms(1) have le: "- I \<le> I" by simp
  define d where "d = nth_randint (- I) I s m"
  have draw: "randint (- I) I (drop_draws m s) = Inr (d, drop_draws (Suc m) s)"
    unfolding d_def using le by (rule randint_at)
  define img1 where "img1 = putpixel img i j (noise_pixel (img_px img i j) d)"
  from Cons.prems have dj: "distinct js" and nj: "j \<notin> set js" by simp_all
  from Cons.IH [OF dj, of img1 "Suc m"] obtain img'
    where run: "add_noise_col I i js img1 (drop_draws (Suc m) s)
                  = Inr (img', drop_draws (Suc m + length js) s)"
      and w: "img_w img' = img_w img1" and h: "img_h img' = img_h img1"
      and out: "\<forall>x y. x \<noteq> i \<or> y \<notin> set js \<longrightarrow> img_px img' x y = img_px img1 x y"
      and ins: "\<forall>n. n < length js \<longrightarrow>
                 img_px img' i (js ! n)
                   = noise_pixel (img_px img1 i (js ! n)) (nth_randint (- I) I s (Suc m + n))"
    by blast
  have px1: "img_px img1 x y
      = (if x = i \<and> y = j then noise_pixel (img_px img i j) d else img_px img x y)" for x y
    by (simp add: img1_def putpixel_px)
  have "add_noise_col I i (j # js) img (drop_draws m s)
          = Inr (img', drop_draws (m + length (j # js)) s)"
    using draw run by (simp add: img1_def)
  moreover have "img_w img' = img_w img" "img_h img' = img_h img"
    using w h by (simp_all add: img1_def putpixel_size)
  moreover have "\<forall>x y. x \<noteq> i \<or> y \<notin> set (j # js) \<longrightarrow> img_px img' x y = img_px img x y"
  proof (intro allI impI)
    fix x y
    assume a: "x \<noteq> i \<or> y \<notin> set (j # js)"
    then have "x \<noteq> i \<or> y \<notin> set js" by auto
    with out have "img_px img' x y = img_px img1 x y" by blast
    also have "\<dots> = img_px img x y"
      using a by (auto simp: px1)
    finally show "img_px img' x y = img_px img x y" .
  qed
  moreover have "\<forall>n. n < length (j # js) \<longrightarrow>
                 img_px img' i ((j # js) ! n)
                   = noise_pixel (img_px img i ((j # js) ! n)) (nth_randint (- I) I s (m + n))"
  proof (intro allI impI)
    fix n
    assume n: "n < length (j # js)"
    show "img_px img' i ((j # js) ! n)
            = noise_pixel (img_px img i ((j # js) ! n)) (nth_randint (- I) I s (m + n))"
    proof (cases n)
      case 0
      from out nj have "img_px img' i j = img_px img1 i j" by blast
      then show ?thesis
        using 0 by (simp add: px1 d_def)
    next
      case (Suc n')
      with n have n': "n' < length js" by simp
      then have "js ! n' \<in> set js" by simp
      with nj have ne: "js ! n' \<noteq> j" by auto
      from ins n' have "img_px img' i (js ! n')
          = noise_pixel (img_px img1 i (js ! n')) (nth_randint (- I) I s (Suc m + n'))"
        by blast
      then show ?thesis
        using Suc ne by (simp add: px1)
    qed
  qed
  ultimately show ?case by blast
qed

lemma add_noise_cols_track:
  assumes "0 \<le> I" and "distinct is"
  shows "\<exists>img'. add_noise_cols I is img (drop_draws m s)
                  = Inr (img', drop_draws (m + length is * img_h img) s)
           \<and> img_w img' = img_w img \<and> img_h img' = img_h img
           \<and> (\<forall>x y. x \<notin> set is \<or> \<not> y < img_h img \<longrightarrow> img_px img' x y = img_px img x y)
           \<and> (\<forall>n y. n < length is \<and> y < img_h img \<longrightarrow>
                 img_px img' (is ! n) y
                   = noise_pixel (img_px img (is ! n) y)
                       (nth_randint (- I) I s (m + n * img_h img + y)))"
  using assms(2)
proof (induction "is" arbitrary: img m)
  case Nil
  then show ?case by simp
next
  case (Cons i "is")
  define hh where "hh = img_h img"
  have dh: "distinct [0..<hh]" by simp
  from add_noise_col_track [OF assms(1) dh, of i img m s] obtain img1
    where run1: "add_noise_col I i [0..<hh] img (drop_draws m s)
                   = Inr (img1, drop_draws (m + hh) s)"
      and w1: "img_w img1 = img_w img" and h1: "img_h img1 = hh"
      and out1: "\<forall>x y. x \<noteq> i \<or> y \<notin> set [0..<hh] \<longrightarrow> img_px img1 x y = img_px img x y"
      and ins1: "\<forall>n. n < length [0..<hh] \<longrightarrow>
                 img_px img1 i ([0..<hh] ! n)
                   = noise_pixel (img_px img i ([0..<hh] ! n)) (nth_randint (- I) I s (m + n))"
    unfolding hh_def by auto
  have col: "img_px img1 i y = noise_pixel (img_px img i y) (nth_randint (- I) I s (m + y))"
    if "y < hh" for y
    using ins1 that by auto
  have other: "img_px img1 x y = img_px img x y" if "x \<noteq> i \<or> \<not> y < hh" for x y
    using out1 that by auto
  from Cons.prems have di: "distinct is" and ni: "i \<notin> set is" by simp_all
  from Cons.IH [OF di, of img1 "m + hh"] obtain img'
    where run: "add_noise_cols I is img1 (drop_draws (m + hh) s)
                  = Inr (img', drop_draws (m + hh + length is * hh) s)"
      and w: "img_w img' = img_w img1" and h: "img_h img' = img_h img1"
      and out: "\<forall>x y. x \<notin> set is \<or> \<not> y < hh \<longrightarrow> img_px img' x y = img_px img1 x y"
      and ins: "\<forall>n y. n < length is \<and> y < hh \<longrightarrow>
                 img_px img' (is ! n) y
                   = noise_pixel (img_px img1 (is ! n) y)
                       (nth_randint (- I) I s (m + hh + n * hh + y))"
    unfolding h1 by blast
  have "add_noise_cols I (i # is) img (drop_draws m s)
          = Inr (img', drop_draws (m + length (i # is) * img_h img) s)"
    using run1 run by (simp add: hh_def add.assoc)
  moreover have "img_w img' = img_w img" "img_h img' = img_h img"
    using w h w1 h1 by (simp_all add: hh_def)
  moreover have "\<forall>x y. x \<notin> set (i # is) \<or> \<not> y < img_h img
                   \<longrightarrow> img_px img' x y = img_px img x y"
  proof (intro allI impI)
    fix x y
    assume a: "x \<notin> set (i # is) \<or> \<not> y < img_h img"
    then have "x \<notin> set is \<or> \<not> y < hh"
      by (auto simp: hh_def)
    with out have "img_px img' x y = img_px img1 x y" by blast
    also have "\<dots> = img_px img x y"
      using a by (intro other) (auto simp: hh_def)
    finally show "img_px img' x y = img_px img x y" .
  qed
  moreover have "\<forall>n y. n < length (i # is) \<and> y < img_h img \<longrightarrow>
                 img_px img' ((i # is) ! n) y
                   = noise_pixel (img_px img ((i # is) ! n) y)
                       (nth_randint (- I) I s (m + n * img_h img + y))"
  proof (intro allI impI)
    fix n y
    assume a: "n < length (i # is) \<and> y < img_h img"
    then have y: "y < hh" by (simp add: hh_def)
    show "img_px img' ((i # is) ! n) y
            = noise_pixel (img_px img ((i # is) ! n) y)
                (nth_randint (- I) I s (m + n * img_h img + y))"
    proof (cases n)
      case 0
      from out ni have "img_px img' i y = img_px img1 i y" by blast
      then show ?thesis
        using 0 col [OF y] by simp
    next
      case (Suc n')
      with a have n': "n' < length is" by simp
      then have "is ! n' \<in> set is" by simp
      with ni have ne: "is ! n' \<noteq> i" by auto
      from ins n' y have "img_px img' (is ! n') y
          = noise_pixel (img_px img1 (is ! n') y) (nth_randint (- I) I s (m + hh + n' * hh + y))"
        by blast
      moreover have "img_px img1 (is ! n') y = img_px img (is ! n') y"
        using ne by (intro other) simp
      moreover have "m + hh + n' * hh + y = m + Suc n' * hh + y"
        by simp
      ultimately have "img_px img' (is ! n') y
          = noise_pixel (img_px img (is ! n') y) (nth_randint (- I) I s (m + Suc n' * hh + y))"
        by simp
      then show ?thesis
        unfolding Suc hh_def by simp
    qed
  qed
  ultimately show ?case by blast
qed

lemma add_noise_track:
  assumes "0 \<le> I"
  shows "\<exists>img'. add_noise img I s = Inr (img', drop_draws (img_w img * img_h img) s)
           \<and> img_w img' = img_w img \<and> img_h img' = img_h img
           \<and> (\<forall>x y. x < img_w img \<and> y < img_h img \<longrightarrow>
                 img_px img' x y
                   = noise_pixel (img_px img x y) (nth_randint (- I) I s (x * img_h img + y)))"
proof -
  have d: "distinct [0..<img_w img]" by simp
  from add_noise_cols_track [OF assms d, of img 0 s] obtain img'
    where run: "add_noise_cols I [0..<img_w img] img (drop_draws 0 s)
                  = Inr (img', drop_draws (0 + length [0..<img_w img] * img_h img) s)"
      and sz: "img_w img' = img_w img" "img_h img' = img_h img"
      and ins: "\<forall>n y. n < length [0..<img_w img] \<and> y < img_h img \<longrightarrow>
                 img_px img' ([0..<img_w img] ! n) y
                   = noise_pixel (img_px img ([0..<img_w img] ! n) y)
                       (nth_randint (- I) I s (0 + n * img_h img + y))"
    by blast
  have "add_noise img I s = Inr (img', drop_draws (img_w img * img_h img) s)"
    using run by (simp add: add_noise_def drop_draws_0)
  moreover have "\<forall>x y. x < img_w img \<and> y < img_h img \<longrightarrow>
                 img_px img' x y
                   = noise_pixel (img_px img x y) (nth_randint (- I) I s (x * img_h img + y))"
    using ins by auto
  ultimately show ?thesis
    using sz by blast
qed

text \<open>
  Claim C6. For every image and every intensity \<open>I \<ge> 0\<close>, \<^verbatim>\<open>add_noise\<close> returns after one
  draw for each pixel, the columns from left to right and each column from top to
  bottom. The pixel \<open>(x, y)\<close> is number \<open>x * height + y\<close> of the pass: the delta \<open>d\<close>
  added to it is what \<^verbatim>\<open>random.randint(-I, I)\<close> returns on the stream after that many
  draws, a number of the interval from \<open>-I\<close> to \<open>I\<close>. Each of R, G and B of the output
  pixel is the input channel plus this one \<open>d\<close>, clamped to the range from 0 to 255, so
  that it differs from the input channel by at most \<open>I\<close> and lies between 0 and 255;
  the alpha channel, when there is one, is the one read.
\<close>

theorem add_noise_bound:
  assumes "0 \<le> I" and "x < img_w img" and "y < img_h img"
  shows "\<exists>img' d.
             add_noise img I s = Inr (img', drop_draws (img_w img * img_h img) s)
           \<and> randint (- I) I (drop_draws (x * img_h img + y) s)
               = Inr (d, drop_draws (x * img_h img + y + 1) s)
           \<and> - I \<le> d \<and> d \<le> I
           \<and> red (img_px img' x y) = max 0 (min 255 (red (img_px img x y) + d))
           \<and> green (img_px img' x y) = max 0 (min 255 (green (img_px img x y) + d))
           \<and> blue (img_px img' x y) = max 0 (min 255 (blue (img_px img x y) + d))
           \<and> \<bar>red (img_px img' x y) - red (img_px img x y)\<bar> \<le> I
           \<and> \<bar>green (img_px img' x y) - green (img_px img x y)\<bar> \<le> I
           \<and> \<bar>blue (img_px img' x y) - blue (img_px img x y)\<bar> \<le> I
           \<and> 0 \<le> red (img_px img' x y) \<and> red (img_px img' x y) \<le> 255
           \<and> 0 \<le> green (img_px img' x y) \<and> green (img_px img' x y) \<le> 255
           \<and> 0 \<le> blue (img_px img' x y) \<and> blue (img_px img' x y) \<le> 255
           \<and> alpha (img_px img' x y) = alpha (img_px img x y)"
proof -
  from assms(1) have le: "- I \<le> I" by simp
  define k where "k = x * img_h img + y"
  define d where "d = nth_randint (- I) I s k"
  from add_noise_track [OF assms(1), of img s] obtain img'
    where run: "add_noise img I s = Inr (img', drop_draws (img_w img * img_h img) s)"
      and px: "\<forall>x y. x < img_w img \<and> y < img_h img \<longrightarrow>
                 img_px img' x y
                   = noise_pixel (img_px img x y) (nth_randint (- I) I s (x * img_h img + y))"
    by blast
  from px assms(2,3) have q: "img_px img' x y = noise_pixel (img_px img x y) d"
    by (simp add: d_def k_def)
  have draw: "randint (- I) I (drop_draws k s) = Inr (d, drop_draws (k + 1) s)"
    unfolding d_def using randint_at [OF le, of k s] by simp
  have d: "- I \<le> d" "d \<le> I"
    unfolding d_def using nth_randint_range [OF le] by blast+
  let ?p = "img_px img x y"
  have r: "red (img_px img' x y) = max 0 (min 255 (red ?p + d))"
    and g: "green (img_px img' x y) = max 0 (min 255 (green ?p + d))"
    and b: "blue (img_px img' x y) = max 0 (min 255 (blue ?p + d))"
    and a: "alpha (img_px img' x y) = alpha ?p"
    by (simp_all add: q noise_pixel_channels)
  have "\<bar>red (img_px img' x y) - red ?p\<bar> \<le> I"
    unfolding r using channel_range(1,2) [of ?p] d by (rule clamp_near)
  moreover have "\<bar>green (img_px img' x y) - green ?p\<bar> \<le> I"
    unfolding g using channel_range(3,4) [of ?p] d by (rule clamp_near)
  moreover have "\<bar>blue (img_px img' x y) - blue ?p\<bar> \<le> I"
    unfolding b using channel_range(5,6) [of ?p] d by (rule clamp_near)
  ultimately show ?thesis
    using run draw [unfolded k_def] d r g b a channel_range [of "img_px img' x y"] by blast
qed

theorem add_noise_bound_witness:
  "(0::int) \<le> 3 \<and> (0::nat) < 1
   \<and> (\<exists>img'. add_noise \<lparr>img_w = 1, img_h = 1, img_px = \<lambda>x y. RGBA 10 20 30 40\<rparr> 3 (\<lambda>n. 5)
          = Inr (img', drop_draws 1 (\<lambda>n. 5))
        \<and> randint (- 3) 3 (\<lambda>n. 5) = Inr (2, drop_draws 1 (\<lambda>n. 5))
        \<and> red (img_px img' 0 0) = 12
        \<and> green (img_px img' 0 0) = 22
        \<and> blue (img_px img' 0 0) = 32
        \<and> alpha (img_px img' 0 0) = Some 40)"
  using add_noise_bound [of 3 0 "\<lparr>img_w = 1, img_h = 1, img_px = \<lambda>x y. RGBA 10 20 30 40\<rparr>" 0 "\<lambda>n. 5"]
  by (auto simp: randint_def drop_draws_def advance_def)

text \<open>
  Claim C10. With intensity 0 the pass changes nothing: for every image, the image
  \<^verbatim>\<open>add_noise\<close> returns is the image it was given, every channel of every pixel and
  the alpha channel included.
\<close>

theorem add_noise_zero_identity:
  "\<exists>s'. add_noise img 0 s = Inr (img, s')"
proof -
  from add_noise_spec [of 0 img s] obtain img' s'
    where run: "add_noise img 0 s = Inr (img', s')"
      and w: "img_w img' = img_w img" and h: "img_h img' = img_h img"
      and px: "\<forall>x y. if x < img_w img \<and> y < img_h img
                 then noised 0 (img_px img x y) (img_px img' x y)
                 else img_px img' x y = img_px img x y"
    by auto
  have "img_px img' x y = img_px img x y" for x y
  proof -
    from px have "if x < img_w img \<and> y < img_h img
                 then noised 0 (img_px img x y) (img_px img' x y)
                 else img_px img' x y = img_px img x y"
      by blast
    then show ?thesis
      by (auto split: if_splits dest: noised_zero)
  qed
  then have "img_px img' = img_px img"
    by (intro ext)
  with w h have "img' = img" by simp
  with run show ?thesis by blast
qed

section \<open>Properties of the drawing operations\<close>

lemma putpixel_simps:
  "img_w (putpixel img a b p) = img_w img"
  "img_h (putpixel img a b p) = img_h img"
  "img_px (putpixel img a b p) x y = (if x = a \<and> y = b then p else img_px img x y)"
  by (simp_all add: putpixel_def)

lemma plot_simps:
  "img_w (plot p xy img) = img_w img"
  "img_h (plot p xy img) = img_h img"
  "img_px (plot p xy img) x y =
     (if xy = (int x, int y) \<and> x < img_w img \<and> y < img_h img then p else img_px img x y)"
  by (cases xy; auto simp: plot_def putpixel_simps)+

lemma fold_plot:
  "img_w (fold (plot p) pts img) = img_w img"
  "img_h (fold (plot p) pts img) = img_h img"
  "img_px (fold (plot p) pts img) x y =
     (if (int x, int y) \<in> set pts \<and> x < img_w img \<and> y < img_h img then p else img_px img x y)"
  by (induction pts arbitrary: img; auto simp: plot_simps)+

lemma draw_line_size:
  "img_w (draw_line img a b p) = img_w img"
  "img_h (draw_line img a b p) = img_h img"
  by (simp_all add: draw_line_def fold_plot)

lemma draw_line_row:
  assumes "0 \<le> width" "img_w img = nat width"
  shows "img_px (draw_line img (0, i) (width, i) p) x y =
           (if int y = i \<and> x < img_w img \<and> y < img_h img then p else img_px img x y)"
  using assms by (auto simp: draw_line_def fold_plot line_points_def)

lemma draw_line_column:
  assumes "0 \<le> height" "img_h img = nat height"
  shows "img_px (draw_line img (i, 0) (i, height) p) x y =
           (if int x = i \<and> x < img_w img \<and> y < img_h img then p else img_px img x y)"
  using assms by (auto simp: draw_line_def fold_plot line_points_def)

lemma c_int_small: "\<bar>v\<bar> < 2 ^ 31 \<Longrightarrow> c_int v"
  unfolding c_int_def by simp linarith

lemma c_long_long_small: "\<bar>v\<bar> < 2 ^ 31 \<Longrightarrow> c_long_long v"
  unfolding c_long_long_def by simp linarith

lemma getink_rgb_ok:
  "c_long_long r \<Longrightarrow> c_int g \<Longrightarrow> c_int b \<Longrightarrow> getink_rgb (r, g, b) = Inr (ink_rgb (r, g, b))"
  by (simp add: getink_rgb_def)

lemma getink_rgba_ok:
  "c_long_long r \<Longrightarrow> c_int g \<Longrightarrow> c_int b \<Longrightarrow> c_int a
     \<Longrightarrow> getink_rgba (r, g, b) a = Inr (ink_rgba (r, g, b) a)"
  by (simp add: getink_rgba_def)

lemma getink_rgb_small:
  assumes "\<bar>r\<bar> < 2 ^ 31" "\<bar>g\<bar> < 2 ^ 31" "\<bar>b\<bar> < 2 ^ 31"
  shows "getink_rgb (r, g, b) = Inr (ink_rgb (r, g, b))"
  using assms by (intro getink_rgb_ok c_int_small c_long_long_small)

lemma getink_rgba_small:
  assumes "\<bar>r\<bar> < 2 ^ 31" "\<bar>g\<bar> < 2 ^ 31" "\<bar>b\<bar> < 2 ^ 31" "\<bar>a\<bar> < 2 ^ 31"
  shows "getink_rgba (r, g, b) a = Inr (ink_rgba (r, g, b) a)"
  using assms by (intro getink_rgba_ok c_int_small c_long_long_small)

section \<open>Properties of create_gradient\<close>

lemma int_truediv_ok: "n \<noteq> 0 \<Longrightarrow> int_truediv i n = Inr (fl (of_int i / of_int n))"
  by (simp add: int_truediv_def)

lemma fl_one: "fl 1 = 1"
  using fl_of_int [of 1] by simp

lemma ratio_range:
  assumes "0 \<le> i" "i < n"
  shows "0 \<le> fl (of_int i / of_int n)" and "fl (of_int i / of_int n) \<le> 1"
proof -
  have n: "(0::rat) < of_int n" using assms by simp
  have "(0::rat) \<le> of_int i / of_int n"
    using assms by simp
  then have "fl 0 \<le> fl (of_int i / of_int n)"
    by (rule fl_mono)
  then show "0 \<le> fl (of_int i / of_int n)"
    by (simp add: fl_zero)
  have "(of_int i :: rat) \<le> of_int n"
    using assms by simp
  then have "of_int i / of_int n \<le> (1::rat)"
    using n by (simp add: field_simps)
  then have "fl (of_int i / of_int n) \<le> fl 1"
    by (rule fl_mono)
  then show "fl (of_int i / of_int n) \<le> 1"
    by (simp add: fl_one)
qed

lemma gradient_channel_range:
  assumes a: "0 \<le> a" "a \<le> 255" and b: "0 \<le> b" "b \<le> 255"
    and r: "0 \<le> r" "r \<le> 1"
  shows "0 \<le> gradient_channel a b r" and "gradient_channel a b r \<le> 510"
proof -
  have fa: "float_of_int a = of_int a" and fb: "float_of_int b = of_int b"
    and f1: "float_of_int 1 = 1"
    using a b by (simp_all add: float_of_int_def fl_of_int fl_one)
  define t where "t = fsub 1 r"
  define p1 where "p1 = fmul (of_int a) t"
  define p2 where "p2 = fmul (of_int b) r"
  define v where "v = fadd p1 p2"
  have fa': "fl (of_int a) = of_int a"
    using a by (intro fl_of_int) simp
  have fb': "fl (of_int b) = of_int b"
    using b by (intro fl_of_int) simp
  have fab: "fl (of_int (a + b)) = of_int (a + b)"
    using a b by (intro fl_of_int) simp
  have t: "0 \<le> t" "t \<le> 1"
  proof -
    have "fl 0 \<le> fl (1 - r)" using r by (intro fl_mono) simp
    then show "0 \<le> t" by (simp add: t_def fsub_def fl_zero)
    have "fl (1 - r) \<le> fl 1" using r by (intro fl_mono) simp
    then show "t \<le> 1" by (simp add: t_def fsub_def fl_one)
  qed
  have p1: "0 \<le> p1" "p1 \<le> of_int a"
  proof -
    have "fl 0 \<le> fl (of_int a * t)" using a t by (intro fl_mono) simp
    then show "0 \<le> p1" by (simp add: p1_def fmul_def fl_zero)
    have "of_int a * t \<le> of_int a * 1"
      using a t by (intro mult_left_mono) simp_all
    then have "fl (of_int a * t) \<le> fl (of_int a)"
      by (intro fl_mono) simp
    then show "p1 \<le> of_int a"
      by (simp only: fa' p1_def fmul_def)
  qed
  have p2: "0 \<le> p2" "p2 \<le> of_int b"
  proof -
    have "fl 0 \<le> fl (of_int b * r)" using b r by (intro fl_mono) simp
    then show "0 \<le> p2" by (simp add: p2_def fmul_def fl_zero)
    have "of_int b * r \<le> of_int b * 1"
      using b r by (intro mult_left_mono) simp_all
    then have "fl (of_int b * r) \<le> fl (of_int b)"
      by (intro fl_mono) simp
    then show "p2 \<le> of_int b"
      by (simp only: fb' p2_def fmul_def)
  qed
  have v: "0 \<le> v" "v \<le> of_int (a + b)"
  proof -
    have "fl 0 \<le> fl (p1 + p2)"
      using p1 p2 by (intro fl_mono) simp
    then show "0 \<le> v"
      by (simp add: v_def fadd_def fl_zero)
    have "p1 + p2 \<le> of_int (a + b)"
      using p1 p2 by simp
    then have "fl (p1 + p2) \<le> fl (of_int (a + b))"
      by (rule fl_mono)
    then show "v \<le> of_int (a + b)"
      by (simp only: fab v_def fadd_def)
  qed
  have g: "gradient_channel a b r = py_int v"
    by (simp add: gradient_channel_def fa fb f1 v_def p1_def p2_def t_def)
  have "\<lfloor>v\<rfloor> \<le> \<lfloor>(of_int (a + b) :: rat)\<rfloor>"
    using v(2) by (rule floor_mono)
  then have "\<lfloor>v\<rfloor> \<le> a + b"
    by (simp only: floor_of_int)
  then have "\<lfloor>v\<rfloor> \<le> 510"
    using a b by linarith
  moreover have "gradient_channel a b r = \<lfloor>v\<rfloor>"
    using v(1) by (simp add: g py_int_def)
  ultimately show "gradient_channel a b r \<le> 510"
    by (simp only:)
  show "0 \<le> gradient_channel a b r"
    using v(1) by (simp add: g py_int_def)
qed

lemma getink_rgb_gradient:
  assumes "rgb_color c1" "rgb_color c2" "0 \<le> r" "r \<le> 1"
  shows "getink_rgb (gradient_color c1 c2 r) = Inr (ink_rgb (gradient_color c1 c2 r))"
proof -
  obtain r1 g1 b1 where c1: "c1 = (r1, g1, b1)" by (cases c1)
  obtain r2 g2 b2 where c2: "c2 = (r2, g2, b2)" by (cases c2)
  note ch = gradient_channel_range [OF _ _ _ _ assms(3,4)]
  have "\<bar>gradient_channel r1 r2 r\<bar> < 2 ^ 31" "\<bar>gradient_channel g1 g2 r\<bar> < 2 ^ 31"
    "\<bar>gradient_channel b1 b2 r\<bar> < 2 ^ 31"
    using assms(1,2) ch [of r1 r2] ch [of g1 g2] ch [of b1 b2]
    by (simp_all add: c1 c2 rgb_color_def)
  then show ?thesis
    unfolding c1 c2 gradient_color.simps by (rule getink_rgb_small)
qed

lemma gradient_rows:
  assumes "0 \<le> width" "img_w img = nat width" "img_h img = nat height"
    and "distinct is" and "\<forall>i\<in>set is. 0 \<le> i \<and> i < height"
    and "rgb_color c1" "rgb_color c2"
  shows "\<exists>img'. for_each (gradient_step width height c1 c2 ''vertical'') is (img, s) = Inr (img', s)
           \<and> img_w img' = img_w img \<and> img_h img' = img_h img
           \<and> (\<forall>x y. img_px img' x y =
                 (if int y \<in> set is \<and> x < img_w img \<and> y < img_h img
                  then ink_rgb (gradient_color c1 c2 (fl (of_int (int y) / of_int height)))
                  else img_px img x y))"
  using assms(2-5)
proof (induction "is" arbitrary: img)
  case Nil
  then show ?case by simp
next
  case (Cons i "is")
  from Cons.prems have i: "0 \<le> i" "i < height" and ni: "i \<notin> set is" and d: "distinct is"
    and rest: "\<forall>i\<in>set is. 0 \<le> i \<and> i < height"
    by simp_all
  define img1 where
    "img1 = draw_line img (0, i) (width, i) (ink_rgb (gradient_color c1 c2 (fl (of_int i / of_int height))))"
  have "getink_rgb (gradient_color c1 c2 (fl (of_int i / of_int height)))
      = Inr (ink_rgb (gradient_color c1 c2 (fl (of_int i / of_int height))))"
    using assms(6,7) ratio_range [OF i] by (rule getink_rgb_gradient)
  then have step: "gradient_step width height c1 c2 ''vertical'' i (img, s) = Inr (img1, s)"
    using i by (simp add: gradient_step_def int_truediv_ok img1_def)
  have sz: "img_w img1 = nat width" "img_h img1 = nat height"
    using Cons.prems(1,2) by (simp_all add: img1_def draw_line_size)
  from Cons.IH [OF sz d rest] obtain img'
    where run: "for_each (gradient_step width height c1 c2 ''vertical'') is (img1, s) = Inr (img', s)"
      and w: "img_w img' = img_w img1" and h: "img_h img' = img_h img1"
      and px: "\<forall>x y. img_px img' x y =
                 (if int y \<in> set is \<and> x < img_w img1 \<and> y < img_h img1
                  then ink_rgb (gradient_color c1 c2 (fl (of_int (int y) / of_int height)))
                  else img_px img1 x y)"
    by blast
  have px1: "img_px img1 x y =
      (if int y = i \<and> x < img_w img \<and> y < img_h img
       then ink_rgb (gradient_color c1 c2 (fl (of_int i / of_int height)))
       else img_px img x y)" for x y
    unfolding img1_def using assms(1) Cons.prems(1) by (rule draw_line_row)
  have "for_each (gradient_step width height c1 c2 ''vertical'') (i # is) (img, s) = Inr (img', s)"
    using step run by simp
  moreover have "img_w img' = img_w img" "img_h img' = img_h img"
    using w h sz Cons.prems(1,2) by simp_all
  moreover have "\<forall>x y. img_px img' x y =
                 (if int y \<in> set (i # is) \<and> x < img_w img \<and> y < img_h img
                  then ink_rgb (gradient_color c1 c2 (fl (of_int (int y) / of_int height)))
                  else img_px img x y)"
    using px px1 ni sz Cons.prems(1,2) by auto
  ultimately show ?case by blast
qed


lemma gradient_columns:
  assumes "0 \<le> height" "img_w img = nat width" "img_h img = nat height" "d \<noteq> ''vertical''"
    and "distinct is" and "\<forall>i\<in>set is. 0 \<le> i \<and> i < width"
    and "rgb_color c1" "rgb_color c2"
  shows "\<exists>img'. for_each (gradient_step width height c1 c2 d) is (img, s) = Inr (img', s)
           \<and> img_w img' = img_w img \<and> img_h img' = img_h img
           \<and> (\<forall>x y. img_px img' x y =
                 (if int x \<in> set is \<and> x < img_w img \<and> y < img_h img
                  then ink_rgb (gradient_color c1 c2 (fl (of_int (int x) / of_int width)))
                  else img_px img x y))"
  using assms(2,3,5,6)
proof (induction "is" arbitrary: img)
  case Nil
  then show ?case by simp
next
  case (Cons i "is")
  from Cons.prems have i: "0 \<le> i" "i < width" and ni: "i \<notin> set is" and di: "distinct is"
    and rest: "\<forall>i\<in>set is. 0 \<le> i \<and> i < width"
    by simp_all
  define img1 where
    "img1 = draw_line img (i, 0) (i, height) (ink_rgb (gradient_color c1 c2 (fl (of_int i / of_int width))))"
  have "getink_rgb (gradient_color c1 c2 (fl (of_int i / of_int width)))
      = Inr (ink_rgb (gradient_color c1 c2 (fl (of_int i / of_int width))))"
    using assms(7,8) ratio_range [OF i] by (rule getink_rgb_gradient)
  then have step: "gradient_step width height c1 c2 d i (img, s) = Inr (img1, s)"
    using i assms(4) by (simp add: gradient_step_def int_truediv_ok img1_def)
  have sz: "img_w img1 = nat width" "img_h img1 = nat height"
    using Cons.prems(1,2) by (simp_all add: img1_def draw_line_size)
  from Cons.IH [OF sz di rest] obtain img'
    where run: "for_each (gradient_step width height c1 c2 d) is (img1, s) = Inr (img', s)"
      and w: "img_w img' = img_w img1" and h: "img_h img' = img_h img1"
      and px: "\<forall>x y. img_px img' x y =
                 (if int x \<in> set is \<and> x < img_w img1 \<and> y < img_h img1
                  then ink_rgb (gradient_color c1 c2 (fl (of_int (int x) / of_int width)))
                  else img_px img1 x y)"
    by blast
  have px1: "img_px img1 x y =
      (if int x = i \<and> x < img_w img \<and> y < img_h img
       then ink_rgb (gradient_color c1 c2 (fl (of_int i / of_int width)))
       else img_px img x y)" for x y
    unfolding img1_def using assms(1) Cons.prems(2) by (rule draw_line_column)
  have "for_each (gradient_step width height c1 c2 d) (i # is) (img, s) = Inr (img', s)"
    using step run by simp
  moreover have "img_w img' = img_w img" "img_h img' = img_h img"
    using w h sz Cons.prems(1,2) by simp_all
  moreover have "\<forall>x y. img_px img' x y =
                 (if int x \<in> set (i # is) \<and> x < img_w img \<and> y < img_h img
                  then ink_rgb (gradient_color c1 c2 (fl (of_int (int x) / of_int width)))
                  else img_px img x y)"
    using px px1 ni sz Cons.prems(1,2) by auto
  ultimately show ?case by blast
qed

lemma py_range_props:
  "distinct (py_range n)" "set (py_range n) = {i. 0 \<le> i \<and> i < n}"
  by (auto simp: py_range_def)

lemma create_gradient_vertical:
  assumes "0 \<le> width" "0 \<le> height" "rgb_color c1" "rgb_color c2"
  shows "\<exists>img. create_gradient width height c1 c2 ''vertical'' s = Inr (img, s)
           \<and> img_w img = nat width \<and> img_h img = nat height
           \<and> (\<forall>x y. img_px img x y =
                 (if x < nat width \<and> y < nat height
                  then ink_rgb (gradient_color c1 c2 (fl (of_int (int y) / of_int height)))
                  else RGB 0 0 0))"
proof -
  define img0 where "img0 = \<lparr>img_w = nat width, img_h = nat height, img_px = \<lambda>x y. RGB 0 0 0\<rparr>"
  have new: "image_new width height (Inr (RGB 0 0 0)) = Inr img0"
    using assms(1,2) by (simp add: image_new_def img0_def)
  have sz: "img_w img0 = nat width" "img_h img0 = nat height"
    by (simp_all add: img0_def)
  have rng: "\<forall>i\<in>set (py_range height). 0 \<le> i \<and> i < height"
    by (simp add: py_range_props)
  from gradient_rows [OF assms(1) sz py_range_props(1) rng assms(3,4), of s] obtain img'
    where run: "for_each (gradient_step width height c1 c2 ''vertical'') (py_range height) (img0, s)
                  = Inr (img', s)"
      and w: "img_w img' = img_w img0" and h: "img_h img' = img_h img0"
      and px: "\<forall>x y. img_px img' x y =
                 (if int y \<in> set (py_range height) \<and> x < img_w img0 \<and> y < img_h img0
                  then ink_rgb (gradient_color c1 c2 (fl (of_int (int y) / of_int height)))
                  else img_px img0 x y)"
    by blast
  have "create_gradient width height c1 c2 ''vertical'' s = Inr (img', s)"
    using new run by (simp add: create_gradient_def)
  moreover have "\<forall>x y. img_px img' x y =
                 (if x < nat width \<and> y < nat height
                  then ink_rgb (gradient_color c1 c2 (fl (of_int (int y) / of_int height)))
                  else RGB 0 0 0)"
    using px by (auto simp: py_range_props img0_def)
  ultimately show ?thesis
    using w h sz by auto
qed

lemma create_gradient_horizontal:
  assumes "0 \<le> width" "0 \<le> height" "d \<noteq> ''vertical''" "rgb_color c1" "rgb_color c2"
  shows "\<exists>img. create_gradient width height c1 c2 d s = Inr (img, s)
           \<and> img_w img = nat width \<and> img_h img = nat height
           \<and> (\<forall>x y. img_px img x y =
                 (if x < nat width \<and> y < nat height
                  then ink_rgb (gradient_color c1 c2 (fl (of_int (int x) / of_int width)))
                  else RGB 0 0 0))"
proof -
  define img0 where "img0 = \<lparr>img_w = nat width, img_h = nat height, img_px = \<lambda>x y. RGB 0 0 0\<rparr>"
  have new: "image_new width height (Inr (RGB 0 0 0)) = Inr img0"
    using assms(1,2) by (simp add: image_new_def img0_def)
  have sz: "img_w img0 = nat width" "img_h img0 = nat height"
    by (simp_all add: img0_def)
  have rng: "\<forall>i\<in>set (py_range width). 0 \<le> i \<and> i < width"
    by (simp add: py_range_props)
  from gradient_columns [OF assms(2) sz assms(3) py_range_props(1) rng assms(4,5), of s] obtain img'
    where run: "for_each (gradient_step width height c1 c2 d) (py_range width) (img0, s)
                  = Inr (img', s)"
      and w: "img_w img' = img_w img0" and h: "img_h img' = img_h img0"
      and px: "\<forall>x y. img_px img' x y =
                 (if int x \<in> set (py_range width) \<and> x < img_w img0 \<and> y < img_h img0
                  then ink_rgb (gradient_color c1 c2 (fl (of_int (int x) / of_int width)))
                  else img_px img0 x y)"
    by blast
  have "create_gradient width height c1 c2 d s = Inr (img', s)"
    using new run assms(3) by (simp add: create_gradient_def)
  moreover have "\<forall>x y. img_px img' x y =
                 (if x < nat width \<and> y < nat height
                  then ink_rgb (gradient_color c1 c2 (fl (of_int (int x) / of_int width)))
                  else RGB 0 0 0)"
    using px by (auto simp: py_range_props img0_def)
  ultimately show ?thesis
    using w h sz by auto
qed


lemma fl_256:
  assumes "\<bar>m\<bar> < 2 ^ 53"
  shows "fl (of_int m / 256) = of_int m / 256"
proof -
  have "(2::rat) powi (- 8) = 1 / 256"
    by (simp add: power_int_def power_divide)
  then have "of_int m * 2 powi (- 8) = (of_int m / 256 :: rat)"
    by simp
  then show ?thesis
    using fl_exact [OF assms, of "- 8"] by simp
qed

lemma py_int_of_int: "py_int (of_int n) = n"
  by (simp add: py_int_def)

lemma gradient_channel_first:
  assumes "\<bar>a\<bar> < 2 ^ 53"
  shows "gradient_channel a b 0 = a"
  by (simp add: gradient_channel_def float_of_int_def fadd_def fmul_def fsub_def
      fl_of_int [OF assms] fl_one fl_zero py_int_of_int)

lemma gradient_channel_last:
  assumes a: "0 \<le> a" "a \<le> 255" and b: "0 \<le> b" "b \<le> 255"
    and r: "255 / 256 \<le> r" "r \<le> 1"
  shows "b - 1 \<le> gradient_channel a b r" and "gradient_channel a b r \<le> b"
proof -
  have fa: "float_of_int a = of_int a" and fb: "float_of_int b = of_int b"
    and f1: "float_of_int 1 = 1"
    using a b by (simp_all add: float_of_int_def fl_of_int fl_one)
  define t where "t = fsub 1 r"
  define p1 where "p1 = fmul (of_int a) t"
  define p2 where "p2 = fmul (of_int b) r"
  define v where "v = fadd p1 p2"
  define lo :: rat where "lo = of_int (b * 255) / 256"
  define hi :: rat where "hi = of_int (256 * b + a) / 256"
  define qa :: rat where "qa = of_int a / 256"
  have lo: "fl lo = lo"
    unfolding lo_def using b by (intro fl_256) simp
  have hi: "fl hi = hi"
    unfolding hi_def using a b by (intro fl_256) simp
  have qa: "fl qa = qa"
    unfolding qa_def using a by (intro fl_256) simp
  have q1: "fl (1 / 256) = 1 / 256"
    using fl_256 [of 1] by simp
  have fb': "fl (of_int b) = of_int b"
    using b by (intro fl_of_int) simp
  have t: "0 \<le> t" "t \<le> 1 / 256"
  proof -
    have "fl 0 \<le> fl (1 - r)" using r by (intro fl_mono) simp
    then show "0 \<le> t" by (simp add: t_def fsub_def fl_zero)
    have "fl (1 - r) \<le> fl (1 / 256)" using r by (intro fl_mono) simp
    then show "t \<le> 1 / 256" by (simp only: q1 t_def fsub_def)
  qed
  have p1: "0 \<le> p1" "p1 \<le> qa"
  proof -
    have "fl 0 \<le> fl (of_int a * t)" using a t by (intro fl_mono) simp
    then show "0 \<le> p1" by (simp add: p1_def fmul_def fl_zero)
    have "of_int a * t \<le> of_int a * (1 / 256)"
      using a t by (intro mult_left_mono) simp_all
    then have "of_int a * t \<le> qa"
      by (simp add: qa_def)
    then have "fl (of_int a * t) \<le> fl qa"
      by (rule fl_mono)
    then show "p1 \<le> qa"
      by (simp only: qa p1_def fmul_def)
  qed
  have p2: "lo \<le> p2" "p2 \<le> of_int b"
  proof -
    have "of_int b * (255 / 256) \<le> of_int b * r"
      using b r by (intro mult_left_mono) simp_all
    then have "lo \<le> of_int b * r"
      by (simp add: lo_def)
    then have "fl lo \<le> fl (of_int b * r)"
      by (rule fl_mono)
    then show "lo \<le> p2"
      by (simp only: lo p2_def fmul_def)
    have "of_int b * r \<le> of_int b * 1"
      using b r by (intro mult_left_mono) simp_all
    then have "fl (of_int b * r) \<le> fl (of_int b)"
      by (intro fl_mono) simp
    then show "p2 \<le> of_int b"
      by (simp only: fb' p2_def fmul_def)
  qed
  have v: "lo \<le> v" "v \<le> hi"
  proof -
    have "fl lo \<le> fl (p1 + p2)"
      using p1 p2 by (intro fl_mono) simp
    then show "lo \<le> v"
      by (simp only: lo v_def fadd_def)
    have "qa + of_int b = hi"
      by (simp add: qa_def hi_def add_divide_distrib)
    with p1 p2 have "p1 + p2 \<le> hi"
      by linarith
    then have "fl (p1 + p2) \<le> fl hi"
      by (rule fl_mono)
    then show "v \<le> hi"
      by (simp only: hi v_def fadd_def)
  qed
  have g: "gradient_channel a b r = py_int v"
    by (simp add: gradient_channel_def fa fb f1 v_def p1_def p2_def t_def)
  have "0 \<le> lo"
    using b by (simp add: lo_def)
  with v(1) have v0: "0 \<le> v" by simp
  have "of_int (b - 1) \<le> lo"
    using b by (simp add: lo_def field_simps)
  with v(1) have "of_int (b - 1) \<le> v" by simp
  then have l: "b - 1 \<le> \<lfloor>v\<rfloor>" by (simp only: le_floor_iff)
  have "hi < of_int (b + 1)"
    using a by (simp add: hi_def field_simps)
  with v(2) have "v < of_int (b + 1)" by simp
  then have "\<lfloor>v\<rfloor> < b + 1" by (simp only: floor_less_iff)
  then have h: "\<lfloor>v\<rfloor> \<le> b" by simp
  show "b - 1 \<le> gradient_channel a b r" "gradient_channel a b r \<le> b"
    using l h v0 by (simp_all add: g py_int_def)
qed

lemma last_ratio:
  assumes "256 \<le> n"
  shows "255 / 256 \<le> fl (of_int (n - 1) / of_int n)" and "fl (of_int (n - 1) / of_int n) \<le> 1"
proof -
  have n: "(0::rat) < of_int n" using assms by simp
  have q: "fl (of_int 255 / 256) = of_int 255 / 256"
    by (intro fl_256) simp
  have "(255::rat) * of_int n \<le> 256 * of_int (n - 1)"
  proof -
    have "255 * n \<le> 256 * (n - 1)" using assms by simp
    then have "(of_int (255 * n) :: rat) \<le> of_int (256 * (n - 1))"
      by (simp only: of_int_le_iff)
    then show ?thesis by simp
  qed
  then have "(255::rat) / 256 \<le> of_int (n - 1) / of_int n"
    using n by (simp add: field_simps)
  then have "fl (255 / 256) \<le> fl (of_int (n - 1) / of_int n)"
    by (rule fl_mono)
  then show "255 / 256 \<le> fl (of_int (n - 1) / of_int n)"
    using q by simp
  have "of_int (n - 1) / of_int n \<le> (1::rat)"
    using n by (simp add: field_simps)
  then have "fl (of_int (n - 1) / of_int n) \<le> fl 1"
    by (rule fl_mono)
  then show "fl (of_int (n - 1) / of_int n) \<le> 1"
    by (simp add: fl_one)
qed

lemma gradient_mid: "gradient_channel 0 255 (fl (1 / 2)) = 127"
  by code_simp

text \<open>
  Claim C3, as the code has it. The ratio of line \<open>i\<close> is \<open>i / N\<close>, which is 0 on the first
  line and \<open>(N - 1) / N\<close>, not 1, on the last. For a canvas of positive size and colours
  with channels between 0 and 255, the first row (vertical) or column (otherwise) of
  the canvas is \<open>color1\<close> exactly; the last one is within 1 of \<open>color2\<close> in each
  channel when the gradient has at least 256 lines.
\<close>

theorem create_gradient_boundary:
  assumes "0 < width" and "0 < height"
    and "0 \<le> r1 \<and> r1 \<le> 255 \<and> 0 \<le> g1 \<and> g1 \<le> 255 \<and> 0 \<le> b1 \<and> b1 \<le> 255"
    and "0 \<le> r2 \<and> r2 \<le> 255 \<and> 0 \<le> g2 \<and> g2 \<le> 255 \<and> 0 \<le> b2 \<and> b2 \<le> 255"
    and "x < nat width" and "y < nat height"
  shows "\<exists>img. create_gradient width height (r1, g1, b1) (r2, g2, b2) direction s = Inr (img, s)
           \<and> (if direction = ''vertical''
                then red (img_px img x 0) = r1 \<and> green (img_px img x 0) = g1
                     \<and> blue (img_px img x 0) = b1
                     \<and> (if 256 \<le> height
                          then \<bar>red (img_px img x (nat height - 1)) - r2\<bar> \<le> 1
                               \<and> \<bar>green (img_px img x (nat height - 1)) - g2\<bar> \<le> 1
                               \<and> \<bar>blue (img_px img x (nat height - 1)) - b2\<bar> \<le> 1
                          else True)
                else red (img_px img 0 y) = r1 \<and> green (img_px img 0 y) = g1
                     \<and> blue (img_px img 0 y) = b1
                     \<and> (if 256 \<le> width
                          then \<bar>red (img_px img (nat width - 1) y) - r2\<bar> \<le> 1
                               \<and> \<bar>green (img_px img (nat width - 1) y) - g2\<bar> \<le> 1
                               \<and> \<bar>blue (img_px img (nat width - 1) y) - b2\<bar> \<le> 1
                          else True))"
proof -
  have c1: "rgb_color (r1, g1, b1)" and c2: "rgb_color (r2, g2, b2)"
    using assms(3,4) by (simp_all add: rgb_color_def)
  have first: "gradient_color (r1, g1, b1) (r2, g2, b2) (fl 0) = (r1, g1, b1)"
    using assms(3) by (simp add: fl_zero gradient_channel_first)
  have last: "\<bar>red (ink_rgb (gradient_color (r1, g1, b1) (r2, g2, b2) (fl (of_int (n - 1) / of_int n)))) - r2\<bar> \<le> 1
      \<and> \<bar>green (ink_rgb (gradient_color (r1, g1, b1) (r2, g2, b2) (fl (of_int (n - 1) / of_int n)))) - g2\<bar> \<le> 1
      \<and> \<bar>blue (ink_rgb (gradient_color (r1, g1, b1) (r2, g2, b2) (fl (of_int (n - 1) / of_int n)))) - b2\<bar> \<le> 1"
    if n: "256 \<le> n" for n
  proof -
    let ?q = "fl (of_int (n - 1) / of_int n)"
    note q = last_ratio [OF n]
    have r: "r2 - 1 \<le> gradient_channel r1 r2 ?q" "gradient_channel r1 r2 ?q \<le> r2"
      using assms(3,4) q by (simp_all add: gradient_channel_last)
    have g: "g2 - 1 \<le> gradient_channel g1 g2 ?q" "gradient_channel g1 g2 ?q \<le> g2"
      using assms(3,4) q by (simp_all add: gradient_channel_last)
    have b: "b2 - 1 \<le> gradient_channel b1 b2 ?q" "gradient_channel b1 b2 ?q \<le> b2"
      using assms(3,4) q by (simp_all add: gradient_channel_last)
    show ?thesis
      using r g b assms(4) by (auto simp: uint_store8)
  qed
  show ?thesis
  proof (cases "direction = ''vertical''")
    case True
    from create_gradient_vertical [of width height "(r1, g1, b1)" "(r2, g2, b2)" s] assms(1,2) c1 c2
    obtain img
      where run: "create_gradient width height (r1, g1, b1) (r2, g2, b2) ''vertical'' s = Inr (img, s)"
      and px: "\<And>x y. img_px img x y =
                 (if x < nat width \<and> y < nat height
                  then ink_rgb (gradient_color (r1, g1, b1) (r2, g2, b2) (fl (of_int (int y) / of_int height)))
                  else RGB 0 0 0)"
      by auto
    have p0: "img_px img x 0 = ink_rgb (r1, g1, b1)"
      using assms(2,5) first by (simp add: px)
    have "int (nat height - 1) = height - 1"
      using assms(2) by simp
    then have pl: "img_px img x (nat height - 1)
        = ink_rgb (gradient_color (r1, g1, b1) (r2, g2, b2) (fl (of_int (height - 1) / of_int height)))"
      using assms(2,5) by (simp add: px)
    show ?thesis
      using True run p0 pl last [of height] assms(3) by (auto simp: uint_store8)
  next
    case False
    from create_gradient_horizontal [of width height direction "(r1, g1, b1)" "(r2, g2, b2)" s]
      assms(1,2) False c1 c2
    obtain img
      where run: "create_gradient width height (r1, g1, b1) (r2, g2, b2) direction s = Inr (img, s)"
      and px: "\<And>x y. img_px img x y =
                 (if x < nat width \<and> y < nat height
                  then ink_rgb (gradient_color (r1, g1, b1) (r2, g2, b2) (fl (of_int (int x) / of_int width)))
                  else RGB 0 0 0)"
      by auto
    have p0: "img_px img 0 y = ink_rgb (r1, g1, b1)"
      using assms(1,6) first by (simp add: px)
    have "int (nat width - 1) = width - 1"
      using assms(1) by simp
    then have pl: "img_px img (nat width - 1) y
        = ink_rgb (gradient_color (r1, g1, b1) (r2, g2, b2) (fl (of_int (width - 1) / of_int width)))"
      using assms(1,6) by (simp add: px)
    show ?thesis
      using False run p0 pl last [of width] assms(3) by (auto simp: uint_store8)
  qed
qed

theorem create_gradient_boundary_witness:
  "(0::int) < 2 \<and> (0::int) < 256
   \<and> (\<exists>img. create_gradient 2 256 (15, 18, 25) (35, 40, 50) ''vertical'' (\<lambda>n. 0) = Inr (img, \<lambda>n. 0)
         \<and> red (img_px img 1 0) = 15 \<and> green (img_px img 1 0) = 18 \<and> blue (img_px img 1 0) = 25
         \<and> \<bar>red (img_px img 1 255) - 35\<bar> \<le> 1
         \<and> \<bar>green (img_px img 1 255) - 40\<bar> \<le> 1
         \<and> \<bar>blue (img_px img 1 255) - 50\<bar> \<le> 1)"
  using create_gradient_boundary [of 2 256 15 18 25 35 40 50 1 0 "''vertical''" "\<lambda>n. 0"]
  by simp

text \<open>
  The claim as stated fails on a short gradient: on a canvas of 2 by 2 from black to
  white the last row is the middle grey 127, not within 1 of 255.
\<close>

theorem create_gradient_last_row_counterexample:
  "\<exists>img. create_gradient 2 2 (0, 0, 0) (255, 255, 255) ''vertical'' (\<lambda>n. 0) = Inr (img, \<lambda>n. 0)
     \<and> red (img_px img 0 1) = 127 \<and> \<not> \<bar>red (img_px img 0 1) - 255\<bar> \<le> 1"
proof -
  from create_gradient_vertical [of 2 2 "(0, 0, 0)" "(255, 255, 255)" "\<lambda>n. 0"]
  obtain img
    where run: "create_gradient 2 2 (0, 0, 0) (255, 255, 255) ''vertical'' (\<lambda>n. 0) = Inr (img, \<lambda>n. 0)"
    and px: "\<And>x y. img_px img x y =
                 (if x < nat 2 \<and> y < nat 2
                  then ink_rgb (gradient_color (0, 0, 0) (255, 255, 255) (fl (of_int (int y) / of_int 2)))
                  else RGB 0 0 0)"
    by (auto simp: rgb_color_def)
  have "red (img_px img 0 1) = 127"
    by (simp add: px gradient_mid uint_store8)
  with run show ?thesis by simp
qed

lemma gradient_step_frame:
  "(\<exists>e. gradient_step width height c1 c2 d i (img, s) = Inl e
        \<and> gradient_step width height c1 c2 d i (img, s') = Inl e)
   \<or> (\<exists>img'. gradient_step width height c1 c2 d i (img, s) = Inr (img', s)
        \<and> gradient_step width height c1 c2 d i (img, s') = Inr (img', s'))"
  by (simp add: gradient_step_def split: sum.split)

lemma gradient_steps_frame:
  "(\<exists>e. for_each (gradient_step width height c1 c2 d) is (img, s) = Inl e
        \<and> for_each (gradient_step width height c1 c2 d) is (img, s') = Inl e)
   \<or> (\<exists>img'. for_each (gradient_step width height c1 c2 d) is (img, s) = Inr (img', s)
        \<and> for_each (gradient_step width height c1 c2 d) is (img, s') = Inr (img', s'))"
proof (induction "is" arbitrary: img)
  case Nil
  then show ?case by simp
next
  case (Cons i "is")
  from gradient_step_frame [of width height c1 c2 d i img s s'] show ?case
  proof (elim disjE exE conjE)
    fix e
    assume "gradient_step width height c1 c2 d i (img, s) = Inl e"
      and "gradient_step width height c1 c2 d i (img, s') = Inl e"
    then show ?thesis by simp
  next
    fix img1
    assume "gradient_step width height c1 c2 d i (img, s) = Inr (img1, s)"
      and "gradient_step width height c1 c2 d i (img, s') = Inr (img1, s')"
    then show ?thesis
      using Cons.IH [of img1] by simp
  qed
qed

text \<open>
  Claim C8. \<^verbatim>\<open>create_gradient\<close> consumes no randomness. Run in any two states \<open>s\<close>
  and \<open>s'\<close> of the random module with the same five arguments, the two calls either
  raise the same exception or return the same canvas, and each leaves the random
  stream as it found it. For a size that is not negative and two colours with
  channels between 0 and 255 the calls return a canvas.
\<close>

theorem create_gradient_deterministic:
  "((\<exists>e. create_gradient width height color1 color2 direction s = Inl e
         \<and> create_gradient width height color1 color2 direction s' = Inl e)
    \<or> (\<exists>img. create_gradient width height color1 color2 direction s = Inr (img, s)
         \<and> create_gradient width height color1 color2 direction s' = Inr (img, s')))
   \<and> (0 \<le> width \<and> 0 \<le> height \<and> rgb_color color1 \<and> rgb_color color2
        \<longrightarrow> (\<exists>img. create_gradient width height color1 color2 direction s = Inr (img, s)
               \<and> create_gradient width height color1 color2 direction s' = Inr (img, s')))"
proof -
  have frame: "(\<exists>e. create_gradient width height color1 color2 direction s = Inl e
         \<and> create_gradient width height color1 color2 direction s' = Inl e)
    \<or> (\<exists>img. create_gradient width height color1 color2 direction s = Inr (img, s)
         \<and> create_gradient width height color1 color2 direction s' = Inr (img, s'))"
  proof (cases "image_new width height (Inr (RGB 0 0 0))")
    case (Inl e)
    then show ?thesis by (simp add: create_gradient_def)
  next
    case (Inr img0)
    then show ?thesis
      using gradient_steps_frame [of width height color1 color2 direction _ img0 s s']
      by (simp add: create_gradient_def)
  qed
  have total: "\<exists>img. create_gradient width height color1 color2 direction s = Inr (img, s)
               \<and> create_gradient width height color1 color2 direction s' = Inr (img, s')"
    if dom: "0 \<le> width" "0 \<le> height" "rgb_color color1" "rgb_color color2"
  proof -
    have "\<exists>img. create_gradient width height color1 color2 direction s = Inr (img, s)"
    proof (cases "direction = ''vertical''")
      case True
      with create_gradient_vertical [OF dom, of s] show ?thesis by auto
    next
      case False
      with create_gradient_horizontal [OF dom(1,2) False dom(3,4), of s] show ?thesis by auto
    qed
    with frame show ?thesis by auto
  qed
  from frame total show ?thesis by blast
qed

theorem create_gradient_deterministic_witness:
  "(0::int) \<le> 640 \<and> (0::int) \<le> 1200 \<and> rgb_color (15, 18, 25) \<and> rgb_color (35, 40, 50)
   \<and> (\<exists>img. create_gradient 640 1200 (15, 18, 25) (35, 40, 50) ''vertical'' (\<lambda>n. 0)
                = Inr (img, \<lambda>n. 0)
           \<and> create_gradient 640 1200 (15, 18, 25) (35, 40, 50) ''vertical'' (\<lambda>n. 1)
                = Inr (img, \<lambda>n. 1))"
  using create_gradient_deterministic
          [of 640 1200 "(15, 18, 25)" "(35, 40, 50)" "''vertical''" "\<lambda>n. 0" "\<lambda>n. 1"]
  by (simp add: rgb_color_def)
section \<open>Properties of draw_building_silhouette\<close>
















section \<open>Properties of create_ui_texture\<close>

lemma dark_corner: "inventory_darkness 64 64 0 0 = Inr 30"
  by code_simp

lemma dark_opposite: "inventory_darkness 64 64 63 63 = Inr 29"
  by code_simp

lemma dark_centre: "inventory_darkness 3 3 1 1 = Inr 0"
  by code_simp

lemma bright: "inventory_rgb (255, 255, 255) 0 (\<lambda>n. 10) = Inr ((260, 260, 260), \<lambda>n. 10)"
  by (simp add: inventory_rgb_def randint_def advance_def)


text \<open>
  Claim C4, as the code has it. The centre of the shading is the pixel
  \<^verbatim>\<open>(width // 2, height // 2)\<close>. On a square canvas of odd side it is the centre of the
  rotation by 180 degrees, and the darkening term at \<open>(x, y)\<close> is the term at
  \<open>(w - 1 - x, w - 1 - y)\<close>, whatever the floating-point operations round to: the two
  squared distances are the same integer.
\<close>

theorem inventory_darkness_rotation:
  assumes "odd w"
  shows "inventory_darkness w w x y = inventory_darkness w w (w - 1 - x) (w - 1 - y)"
proof -
  define c where "c = w div 2"
  from assms have w: "w = 2 * c + 1"
    by (simp add: c_def)
  have "(w - 1 - x - c) ^ 2 = (x - c) ^ 2" "(w - 1 - y - c) ^ 2 = (y - c) ^ 2"
    by (simp_all add: w power2_commute)
  then show ?thesis
    by (simp add: inventory_darkness_def c_def [symmetric])
qed

theorem inventory_darkness_rotation_witness:
  "odd (3::int) \<and> inventory_darkness 3 3 0 1 = inventory_darkness 3 3 (3 - 1 - 0) (3 - 1 - 1)"
  using inventory_darkness_rotation [of 3 0 1] by simp

text \<open>
  On a canvas of even side the claim as stated fails. On the 64 by 64 slot of the
  catalog the corner \<open>(0, 0)\<close> is at the full distance from the centre \<open>(32, 32)\<close> and
  darkened by 30, the opposite corner \<open>(63, 63)\<close> by 29.
\<close>

theorem inventory_darkness_even_counterexample:
  "inventory_darkness 64 64 0 0 = Inr 30
   \<and> inventory_darkness 64 64 (64 - 1 - 0) (64 - 1 - 0) = Inr 29"
  by (simp add: dark_corner dark_opposite)

text \<open>
  Claim C5. The shading of the style \<^verbatim>\<open>inventory\<close> clamps each channel from below
  only, \<^verbatim>\<open>max(0, _)\<close>, where the style \<^verbatim>\<open>brushstroke\<close> and \<^verbatim>\<open>add_noise\<close> clamp with
  \<^verbatim>\<open>max(0, min(255, _))\<close>. At the centre pixel of a white canvas of 3 by 3 the darkening
  term is 0, and with a dither of 5 each channel handed to \<^verbatim>\<open>putpixel\<close> is 260.
\<close>

theorem inventory_channel_above_255:
  "inventory_darkness 3 3 1 1 = Inr 0
   \<and> inventory_rgb (255, 255, 255) 0 (\<lambda>n. 10) = Inr ((260, 260, 260), \<lambda>n. 10)
   \<and> inventory_pixel 3 3 (255, 255, 255) 1 1 (img, \<lambda>n. 10)
       = Inr (putpixel img 1 1 (ink_rgba (260, 260, 260) 255), \<lambda>n. 10)"
  by (simp add: inventory_pixel_def dark_centre bright getink_rgba_small)





section \<open>Properties of create_brush_stroke_speaker\<close>

lemma draw_line_span:
  "img_px (draw_line img (sx, y0) (ex, y0) p) x y =
     (if int y = y0 \<and> min sx ex \<le> int x \<and> int x \<le> max sx ex \<and> x < img_w img \<and> y < img_h img
      then p else img_px img x y)"
  by (auto simp: draw_line_def fold_plot line_points_def)

lemma clamp_small: "\<bar>max 0 (min 255 v)\<bar> < (2::int) ^ 31"
  by (simp add: max_def min_def)

lemma randint_next:
  assumes "a \<le> b"
  shows "randint a b (drop_draws k s) = Inr (nth_randint a b s k, drop_draws (k + 1) s)"
  using randint_at [OF assms, of k s] by simp

lemma next_draws: "m + 1 + 1 = m + 2" "m + 2 + 1 = m + 3" "m + 3 + 1 = m + (4::nat)"
  by simp_all

lemma le2: "(- 2::int) \<le> 2" and le10: "(- 10::int) \<le> 10" and le20: "(- 20::int) \<le> 20"
  by simp_all

lemma speaker_row_at:
  fixes lib :: library and width height y :: int and s :: rng and m :: nat and r g b :: int
  defines "wave \<equiv> wave_of lib (fl (of_int y / of_int height))"
  defines "sx \<equiv> py_int (fadd (fsub (float_of_int 10) (fmul wave (float_of_int 8)))
                             (float_of_int (nth_randint (- 2) 2 s m)))"
    and "ex \<equiv> py_int (fadd (fadd (float_of_int (width - 10)) (fmul wave (float_of_int 8)))
                            (float_of_int (nth_randint (- 2) 2 s (m + 1))))"
    and "p \<equiv> ink_rgba (max 0 (min 255 (r + nth_randint (- 10) 10 s (m + 2))),
                        max 0 (min 255 (g + nth_randint (- 10) 10 s (m + 2))),
                        max 0 (min 255 (b + nth_randint (- 10) 10 s (m + 2))))
                       (max 0 (min 255 (py_int (fmul (float_of_int 220) wave)
                                         + nth_randint (- 20) 20 s (m + 3))))"
  assumes "height \<noteq> 0"
  shows "speaker_row lib width height (r, g, b) y (img, drop_draws m s)
           = Inr (draw_line img (sx, y) (ex, y) p, drop_draws (m + 4) s)"
proof -
  have d1: "randint (- 2) 2 (drop_draws m s)
      = Inr (nth_randint (- 2) 2 s m, drop_draws (m + 1) s)"
    by (rule randint_next) simp
  have d2: "randint (- 2) 2 (drop_draws (m + 1) s)
      = Inr (nth_randint (- 2) 2 s (m + 1), drop_draws (m + 2) s)"
    using randint_next [OF le2, of "m + 1" s] by (simp only: next_draws)
  have d3: "randint (- 10) 10 (drop_draws (m + 2) s)
      = Inr (nth_randint (- 10) 10 s (m + 2), drop_draws (m + 3) s)"
    using randint_next [OF le10, of "m + 2" s] by (simp only: next_draws)
  have d4: "randint (- 20) 20 (drop_draws (m + 3) s)
      = Inr (nth_randint (- 20) 20 s (m + 3), drop_draws (m + 4) s)"
    using randint_next [OF le20, of "m + 3" s] by (simp only: next_draws)
  show ?thesis
    using assms(5)
    by (simp add: speaker_row_def int_truediv_def Let_def d1 d2 [simplified] d3 [simplified]
        d4 [simplified] getink_rgba_small clamp_small wave_def sx_def ex_def p_def)
qed

lemma speaker_rows_track:
  fixes lib :: library and width height :: int and s :: rng and r g b :: int
  defines "wave \<equiv> \<lambda>y. wave_of lib (fl (of_int y / of_int height))"
  defines "sx \<equiv> \<lambda>y n. py_int (fadd (fsub (float_of_int 10) (fmul (wave y) (float_of_int 8)))
                                   (float_of_int (nth_randint (- 2) 2 s n)))"
    and "ex \<equiv> \<lambda>y n. py_int (fadd (fadd (float_of_int (width - 10)) (fmul (wave y) (float_of_int 8)))
                                  (float_of_int (nth_randint (- 2) 2 s (n + 1))))"
    and "p \<equiv> \<lambda>y n. ink_rgba (max 0 (min 255 (r + nth_randint (- 10) 10 s (n + 2))),
                              max 0 (min 255 (g + nth_randint (- 10) 10 s (n + 2))),
                              max 0 (min 255 (b + nth_randint (- 10) 10 s (n + 2))))
                             (max 0 (min 255 (py_int (fmul (float_of_int 220) (wave y))
                                               + nth_randint (- 20) 20 s (n + 3))))"
  assumes "height \<noteq> 0" and "distinct ys"
  shows "\<exists>img'. for_each (speaker_row lib width height (r, g, b)) ys (img, drop_draws m s)
                  = Inr (img', drop_draws (m + 4 * length ys) s)
           \<and> img_w img' = img_w img \<and> img_h img' = img_h img
           \<and> (\<forall>x y. int y \<notin> set ys \<longrightarrow> img_px img' x y = img_px img x y)
           \<and> (\<forall>i x. i < length ys \<and> 0 \<le> ys ! i \<longrightarrow>
                 img_px img' x (nat (ys ! i))
                   = (if min (sx (ys ! i) (m + 4 * i)) (ex (ys ! i) (m + 4 * i)) \<le> int x
                         \<and> int x \<le> max (sx (ys ! i) (m + 4 * i)) (ex (ys ! i) (m + 4 * i))
                         \<and> x < img_w img \<and> nat (ys ! i) < img_h img
                      then p (ys ! i) (m + 4 * i)
                      else img_px img x (nat (ys ! i))))"
  using assms(6)
proof (induction ys arbitrary: img m)
  case Nil
  then show ?case by simp
next
  case (Cons y0 ys)
  from Cons.prems have ny: "y0 \<notin> set ys" and dy: "distinct ys" by simp_all
  define img1 where "img1 = draw_line img (sx y0 m, y0) (ex y0 m, y0) (p y0 m)"
  have row: "speaker_row lib width height (r, g, b) y0 (img, drop_draws m s)
      = Inr (img1, drop_draws (m + 4) s)"
    unfolding img1_def sx_def ex_def p_def wave_def using assms(5) by (rule speaker_row_at)
  have sz1: "img_w img1 = img_w img" "img_h img1 = img_h img"
    by (simp_all add: img1_def draw_line_size)
  have px1: "img_px img1 x y =
      (if int y = y0 \<and> min (sx y0 m) (ex y0 m) \<le> int x \<and> int x \<le> max (sx y0 m) (ex y0 m)
          \<and> x < img_w img \<and> y < img_h img
       then p y0 m else img_px img x y)" for x y
    unfolding img1_def by (rule draw_line_span)
  from Cons.IH [OF dy, of img1 "m + 4"] obtain img'
    where run: "for_each (speaker_row lib width height (r, g, b)) ys (img1, drop_draws (m + 4) s)
                  = Inr (img', drop_draws (m + 4 + 4 * length ys) s)"
      and sz: "img_w img' = img_w img1" "img_h img' = img_h img1"
      and out: "\<forall>x y. int y \<notin> set ys \<longrightarrow> img_px img' x y = img_px img1 x y"
      and ins: "\<forall>i x. i < length ys \<and> 0 \<le> ys ! i \<longrightarrow>
                 img_px img' x (nat (ys ! i))
                   = (if min (sx (ys ! i) (m + 4 + 4 * i)) (ex (ys ! i) (m + 4 + 4 * i)) \<le> int x
                         \<and> int x \<le> max (sx (ys ! i) (m + 4 + 4 * i)) (ex (ys ! i) (m + 4 + 4 * i))
                         \<and> x < img_w img1 \<and> nat (ys ! i) < img_h img1
                      then p (ys ! i) (m + 4 + 4 * i)
                      else img_px img1 x (nat (ys ! i)))"
    by blast
  have "m + 4 + 4 * length ys = m + 4 * length (y0 # ys)"
    by simp
  with row run
  have "for_each (speaker_row lib width height (r, g, b)) (y0 # ys) (img, drop_draws m s)
          = Inr (img', drop_draws (m + 4 * length (y0 # ys)) s)"
    by simp
  moreover have "img_w img' = img_w img" "img_h img' = img_h img"
    using sz sz1 by simp_all
  moreover have "\<forall>x y. int y \<notin> set (y0 # ys) \<longrightarrow> img_px img' x y = img_px img x y"
    using out px1 by simp
  moreover have "\<forall>i x. i < length (y0 # ys) \<and> 0 \<le> (y0 # ys) ! i \<longrightarrow>
                 img_px img' x (nat ((y0 # ys) ! i))
                   = (if min (sx ((y0 # ys) ! i) (m + 4 * i)) (ex ((y0 # ys) ! i) (m + 4 * i)) \<le> int x
                         \<and> int x \<le> max (sx ((y0 # ys) ! i) (m + 4 * i)) (ex ((y0 # ys) ! i) (m + 4 * i))
                         \<and> x < img_w img \<and> nat ((y0 # ys) ! i) < img_h img
                      then p ((y0 # ys) ! i) (m + 4 * i)
                      else img_px img x (nat ((y0 # ys) ! i)))"
  proof (intro allI impI)
    fix i x
    assume a: "i < length (y0 # ys) \<and> 0 \<le> (y0 # ys) ! i"
    show "img_px img' x (nat ((y0 # ys) ! i))
            = (if min (sx ((y0 # ys) ! i) (m + 4 * i)) (ex ((y0 # ys) ! i) (m + 4 * i)) \<le> int x
                  \<and> int x \<le> max (sx ((y0 # ys) ! i) (m + 4 * i)) (ex ((y0 # ys) ! i) (m + 4 * i))
                  \<and> x < img_w img \<and> nat ((y0 # ys) ! i) < img_h img
               then p ((y0 # ys) ! i) (m + 4 * i)
               else img_px img x (nat ((y0 # ys) ! i)))"
    proof (cases i)
      case 0
      with a have y0: "0 \<le> y0" by simp
      then have "int (nat y0) \<notin> set ys"
        using ny by simp
      with out have "img_px img' x (nat y0) = img_px img1 x (nat y0)"
        by blast
      then show ?thesis
        using 0 y0 by (simp add: px1)
    next
      case (Suc i')
      with a have i': "i' < length ys" and yi: "0 \<le> ys ! i'" by simp_all
      from i' have "ys ! i' \<in> set ys" by simp
      with ny have ne: "ys ! i' \<noteq> y0" by auto
      then have ne': "int (nat (ys ! i')) \<noteq> y0"
        using yi by simp
      have same: "img_px img1 x (nat (ys ! i')) = img_px img x (nat (ys ! i'))"
        using ne' by (simp add: px1)
      have pos: "m + 4 + 4 * i' = m + 4 * Suc i'" by simp
      from ins i' yi
      have "img_px img' x (nat (ys ! i'))
                   = (if min (sx (ys ! i') (m + 4 + 4 * i')) (ex (ys ! i') (m + 4 + 4 * i')) \<le> int x
                         \<and> int x \<le> max (sx (ys ! i') (m + 4 + 4 * i')) (ex (ys ! i') (m + 4 + 4 * i'))
                         \<and> x < img_w img1 \<and> nat (ys ! i') < img_h img1
                      then p (ys ! i') (m + 4 + 4 * i')
                      else img_px img1 x (nat (ys ! i')))"
        by blast
      then show ?thesis
        unfolding Suc pos sz1 same by simp
    qed
  qed
  ultimately show ?case by blast
qed

lemma py_range2_props:
  "distinct (py_range2 a b)" "set (py_range2 a b) = {i. a \<le> i \<and> i < b}"
  by (auto simp: py_range2_def)

lemma alpha_ink_rgba: "alpha (ink_rgba c (max 0 (min 255 a))) = Some (max 0 (min 255 a))"
  by (cases c) (simp add: uint_store8)

lemma py_range2_nth:
  assumes "i < nat (b - a)"
  shows "py_range2 a b ! i = a + int i"
proof -
  have "a + int i \<le> b - 1" using assms by simp
  then show ?thesis
    unfolding py_range2_def by (simp only: nth_upto)
qed

lemma py_range2_length: "length (py_range2 a b) = nat (b - a)"
  by (simp add: py_range2_def)

lemma wave_crest: "fadd (fmul 1 (fl (3 / 10))) (fl (7 / 10)) = 1"
  by code_simp

lemma crest_start: "py_int (fadd (fsub (float_of_int 10) (fmul 1 (float_of_int 8))) (float_of_int (- 2))) = 0"
  by code_simp

lemma crest_end: "py_int (fadd (fadd (float_of_int 190) (fmul 1 (float_of_int 8))) (float_of_int (- 2))) = 196"
  by code_simp

lemma crest_alpha: "py_int (fmul (float_of_int 220) 1) = 220"
  by code_simp

text \<open>
  Claim C9. The first loop of \<^verbatim>\<open>create_brush_stroke_speaker\<close> consumes four draws for
  each row, so that row \<open>y\<close>, from 5 to \<open>height - 5\<close> (excluded), starts at draw
  \<open>4 * (y - 5)\<close>: the jitters \<open>j1\<close> and \<open>j2\<close> of the two ends of the span, the variation
  \<open>v\<close> of the colour and the jitter \<open>j\<close> of the opacity, a number between \<open>-20\<close> and 20.
  The wave factor of the row is \<open>sin((y / height) * pi) * 0.3 + 0.7\<close> in the
  floating-point operations. After the loop the pixels of the row between
  \<^verbatim>\<open>start_x\<close> and \<^verbatim>\<open>end_x\<close> are in the varied colour with the alpha
  \<open>int(220 * wave) + j\<close> clamped to the range from 0 to 255, and the rest of the row
  is still transparent.
\<close>

theorem brush_stroke_alpha:
  assumes "5 \<le> y" and "y < 40 - 5"
  shows "\<exists>img1 j1 j2 v j.
           speaker_stroke lib 200 40 s = Inr (img1, drop_draws 120 s)
         \<and> randint (- 2) 2 (drop_draws (4 * nat (y - 5)) s)
             = Inr (j1, drop_draws (4 * nat (y - 5) + 1) s)
         \<and> randint (- 2) 2 (drop_draws (4 * nat (y - 5) + 1) s)
             = Inr (j2, drop_draws (4 * nat (y - 5) + 2) s)
         \<and> randint (- 10) 10 (drop_draws (4 * nat (y - 5) + 2) s)
             = Inr (v, drop_draws (4 * nat (y - 5) + 3) s)
         \<and> randint (- 20) 20 (drop_draws (4 * nat (y - 5) + 3) s)
             = Inr (j, drop_draws (4 * nat (y - 5) + 4) s)
         \<and> - 20 \<le> j \<and> j \<le> 20
         \<and> (let wave = fadd (fmul (lib_sin lib (fmul (fl (of_int y / 40)) math_pi)) (fl (3 / 10)))
                             (fl (7 / 10));
                 start_x = py_int (fadd (fsub (float_of_int 10) (fmul wave (float_of_int 8)))
                                        (float_of_int j1));
                 end_x = py_int (fadd (fadd (float_of_int (200 - 10)) (fmul wave (float_of_int 8)))
                                      (float_of_int j2));
                 a = max 0 (min 255 (py_int (fmul (float_of_int 220) wave) + j))
             in \<forall>x. if min start_x end_x \<le> int x \<and> int x \<le> max start_x end_x \<and> x < 200
                     then img_px img1 x (nat y)
                            = ink_rgba (max 0 (min 255 (90 + v)), max 0 (min 255 (60 + v)),
                                        max 0 (min 255 (45 + v))) a
                          \<and> alpha (img_px img1 x (nat y)) = Some a
                     else img_px img1 x (nat y) = ink_rgba (0, 0, 0) 0)"
proof -
  let ?img0 = "\<lparr>img_w = nat 200, img_h = nat 40, img_px = \<lambda>x y. ink_rgba (0, 0, 0) 0\<rparr>"
  define n where "n = 4 * nat (y - 5)"
  define j1 where "j1 = nth_randint (- 2) 2 s n"
  define j2 where "j2 = nth_randint (- 2) 2 s (n + 1)"
  define v where "v = nth_randint (- 10) 10 s (n + 2)"
  define j where "j = nth_randint (- 20) 20 s (n + 3)"
  define wave where "wave = wave_of lib (fl (of_int y / of_int 40))"
  define start_x where "start_x = py_int (fadd (fsub (float_of_int 10) (fmul wave (float_of_int 8)))
                                        (float_of_int j1))"
  define end_x where "end_x = py_int (fadd (fadd (float_of_int (200 - 10)) (fmul wave (float_of_int 8)))
                                      (float_of_int j2))"
  define a where "a = max 0 (min 255 (py_int (fmul (float_of_int 220) wave) + j))"
  define p where "p = ink_rgba (max 0 (min 255 (90 + v)), max 0 (min 255 (60 + v)),
                                max 0 (min 255 (45 + v))) a"
  have new: "image_new 200 40 (getink_rgba (0, 0, 0) 0) = Inr ?img0"
    by (simp add: image_new_def getink_rgba_small)
  have d: "distinct (py_range2 5 (40 - 5))"
    by (rule py_range2_props)
  have len: "length (py_range2 5 (40 - 5)) = 30"
    by (simp add: py_range2_length)
  have h: "(40::int) \<noteq> 0" by simp
  from speaker_rows_track [OF h d, of lib 200 90 60 45 ?img0 0 s] obtain img1
    where run: "for_each (speaker_row lib 200 40 (90, 60, 45)) (py_range2 5 (40 - 5))
                  (?img0, drop_draws 0 s)
                  = Inr (img1, drop_draws (0 + 4 * length (py_range2 5 (40 - 5))) s)"
      and ins: "\<forall>i x. i < length (py_range2 5 (40 - 5)) \<and> 0 \<le> py_range2 5 (40 - 5) ! i \<longrightarrow>
                 img_px img1 x (nat (py_range2 5 (40 - 5) ! i))
                   = (if min (py_int (fadd (fsub (float_of_int 10)
                                  (fmul (wave_of lib (fl (of_int (py_range2 5 (40 - 5) ! i) / of_int 40)))
                                        (float_of_int 8)))
                                (float_of_int (nth_randint (- 2) 2 s (0 + 4 * i)))))
                             (py_int (fadd (fadd (float_of_int (200 - 10))
                                  (fmul (wave_of lib (fl (of_int (py_range2 5 (40 - 5) ! i) / of_int 40)))
                                        (float_of_int 8)))
                                (float_of_int (nth_randint (- 2) 2 s (0 + 4 * i + 1))))) \<le> int x
                         \<and> int x \<le> max (py_int (fadd (fsub (float_of_int 10)
                                  (fmul (wave_of lib (fl (of_int (py_range2 5 (40 - 5) ! i) / of_int 40)))
                                        (float_of_int 8)))
                                (float_of_int (nth_randint (- 2) 2 s (0 + 4 * i)))))
                             (py_int (fadd (fadd (float_of_int (200 - 10))
                                  (fmul (wave_of lib (fl (of_int (py_range2 5 (40 - 5) ! i) / of_int 40)))
                                        (float_of_int 8)))
                                (float_of_int (nth_randint (- 2) 2 s (0 + 4 * i + 1)))))
                         \<and> x < img_w ?img0 \<and> nat (py_range2 5 (40 - 5) ! i) < img_h ?img0
                      then ink_rgba (max 0 (min 255 (90 + nth_randint (- 10) 10 s (0 + 4 * i + 2))),
                                     max 0 (min 255 (60 + nth_randint (- 10) 10 s (0 + 4 * i + 2))),
                                     max 0 (min 255 (45 + nth_randint (- 10) 10 s (0 + 4 * i + 2))))
                                    (max 0 (min 255 (py_int (fmul (float_of_int 220)
                                        (wave_of lib (fl (of_int (py_range2 5 (40 - 5) ! i) / of_int 40))))
                                       + nth_randint (- 20) 20 s (0 + 4 * i + 3))))
                      else img_px ?img0 x (nat (py_range2 5 (40 - 5) ! i)))"
    by blast
  have i: "nat (y - 5) < length (py_range2 5 (40 - 5))"
    using assms by (simp add: py_range2_length)
  have yi: "py_range2 5 (40 - 5) ! nat (y - 5) = y"
    using assms by (simp add: py_range2_nth)
  have y: "0 \<le> y" "nat y < 40"
    using assms by simp_all
  have px: "img_px img1 x (nat y)
      = (if min start_x end_x \<le> int x \<and> int x \<le> max start_x end_x \<and> x < 200
         then p else ink_rgba (0, 0, 0) 0)" for x
  proof -
    have c: "nat (y - 5) < length (py_range2 5 (40 - 5)) \<and> 0 \<le> py_range2 5 (40 - 5) ! nat (y - 5)"
      using i y(1) yi by simp
    note r = ins [rule_format, of "nat (y - 5)" x]
    from r [OF c] show ?thesis
      unfolding yi using y(2)
      by (simp add: start_x_def end_x_def p_def a_def wave_def j1_def j2_def v_def j_def n_def
          del: ink_rgba.simps)
  qed
  have stroke: "speaker_stroke lib 200 40 s = Inr (img1, drop_draws 120 s)"
    using new run by (simp add: speaker_stroke_def rust_def py_range2_length drop_draws_0)
  have d1: "randint (- 2) 2 (drop_draws n s) = Inr (j1, drop_draws (n + 1) s)"
    unfolding j1_def by (rule randint_next) simp
  have d2: "randint (- 2) 2 (drop_draws (n + 1) s) = Inr (j2, drop_draws (n + 2) s)"
    unfolding j2_def using randint_next [OF le2, of "n + 1" s] by (simp only: next_draws)
  have d3: "randint (- 10) 10 (drop_draws (n + 2) s) = Inr (v, drop_draws (n + 3) s)"
    unfolding v_def using randint_next [OF le10, of "n + 2" s] by (simp only: next_draws)
  have d4: "randint (- 20) 20 (drop_draws (n + 3) s) = Inr (j, drop_draws (n + 4) s)"
    unfolding j_def using randint_next [OF le20, of "n + 3" s] by (simp only: next_draws)
  have jr: "- 20 \<le> j" "j \<le> 20"
    unfolding j_def using nth_randint_range [of "- 20" 20 s "n + 3"] by simp_all
  have al: "alpha p = Some a"
    unfolding p_def a_def by (rule alpha_ink_rgba)
  have body: "\<forall>x. if min start_x end_x \<le> int x \<and> int x \<le> max start_x end_x \<and> x < 200
                     then img_px img1 x (nat y) = p \<and> alpha (img_px img1 x (nat y)) = Some a
                     else img_px img1 x (nat y) = ink_rgba (0, 0, 0) 0"
    using al by (simp add: px del: ink_rgba.simps)
  have wave: "wave = fadd (fmul (lib_sin lib (fmul (fl (of_int y / 40)) math_pi)) (fl (3 / 10)))
                          (fl (7 / 10))"
    by (simp add: wave_def wave_of_def)
  note final = body [unfolded p_def a_def start_x_def end_x_def wave]
  show ?thesis
    unfolding Let_def using stroke d1 d2 d3 d4 jr final unfolding n_def
    by blast
qed

theorem brush_stroke_alpha_witness:
  "(5::int) \<le> 20 \<and> (20::int) < 40 - 5
   \<and> (\<exists>img1. speaker_stroke (blank_library\<lparr>lib_sin := \<lambda>x. 1\<rparr>) 200 40 (\<lambda>n. 0) = Inr (img1, \<lambda>n. 0)
         \<and> randint (- 20) 20 (\<lambda>n. 0) = Inr (- 20, \<lambda>n. 0)
         \<and> img_px img1 100 20 = RGBA 80 50 35 200
         \<and> alpha (img_px img1 100 20) = Some (220 - 20)
         \<and> img_px img1 198 20 = RGBA 0 0 0 0)"
proof -
  from brush_stroke_alpha [of 20 "blank_library\<lparr>lib_sin := \<lambda>x. 1\<rparr>" "\<lambda>n. 0"]
  obtain img1 where stroke: "speaker_stroke (blank_library\<lparr>lib_sin := \<lambda>x. 1\<rparr>) 200 40 (\<lambda>n. 0)
      = Inr (img1, \<lambda>n. 0)"
    and px: "\<And>x. if 0 \<le> int x \<and> int x \<le> 196 \<and> x < 200
                 then img_px img1 x 20 = RGBA 80 50 35 200
                    \<and> alpha (img_px img1 x 20) = Some 200
                 else img_px img1 x 20 = RGBA 0 0 0 0"
    by (auto simp: randint_def drop_draws_def advance_def Let_def wave_crest crest_start crest_end
        crest_alpha store8_def cong: if_cong)
  from px [of 100] px [of 198] stroke show ?thesis
    by (simp add: randint_def advance_def)
qed
end
